theory Spec2Isabelle
  imports Main
begin

section \<open>Go string primitives used by the extract pipe\<close>

text \<open>
  A Go \<^verbatim>\<open>string\<close> is a sequence of bytes; it is modelled as \<^typ>\<open>string\<close>, a list of
  8-bit characters.  \<^verbatim>\<open>strings.IndexByte\<close> and \<^verbatim>\<open>strings.Index\<close> return an \<^verbatim>\<open>int\<close>
  that is \<^verbatim>\<open>-1\<close> when nothing is found; here \<^term>\<open>None\<close> stands for \<^verbatim>\<open>-1\<close>.
\<close>

fun IndexByte :: "string \<Rightarrow> char \<Rightarrow> nat option" where
  "IndexByte [] c = None"
| "IndexByte (x # xs) c = (if x = c then Some 0 else map_option Suc (IndexByte xs c))"

definition HasPrefix :: "string \<Rightarrow> string \<Rightarrow> bool" where
  "HasPrefix s p = (length p \<le> length s \<and> take (length p) s = p)"

fun Index :: "string \<Rightarrow> string \<Rightarrow> nat option" where
  "Index [] sub = (if sub = [] then Some 0 else None)"
| "Index (x # xs) sub =
     (if HasPrefix (x # xs) sub then Some 0 else map_option Suc (Index xs sub))"

section \<open>The pattern parser\<close>

record extractFormatStep =
  prefix :: string
  field :: string

datatype parse_error =
    MissingFields
  | MissingClose string
  | MissingDelimiter string
  | MissingNamedFields

text \<open>
  \<^verbatim>\<open>html.UnescapeString\<close> belongs to the Go standard library.  It returns its argument
  unchanged when the argument holds no \<^verbatim>\<open>&\<close>; what it does to a string with an
  ampersand (the entity table) is the parameter \<open>unescapeEntities\<close>.
\<close>

definition UnescapeString :: "(string \<Rightarrow> string) \<Rightarrow> string \<Rightarrow> string" where
  "UnescapeString unescapeEntities s =
     (case IndexByte s CHR ''&'' of None \<Rightarrow> s | Some i \<Rightarrow> unescapeEntities s)"

text \<open>
  The \<^verbatim>\<open>for { ... }\<close> loop of \<^verbatim>\<open>parseExtractFormatSteps\<close>.  Its state is the pending
  literal \<open>pfx\<close>, the unread text \<open>s\<close> (which starts right after a \<^verbatim>\<open><\<close>), the steps
  collected so far and the flag \<^verbatim>\<open>hasNamedField\<close>.
\<close>

function parse_loop ::
  "string \<Rightarrow> string \<Rightarrow> extractFormatStep list \<Rightarrow> bool
     \<Rightarrow> parse_error + (extractFormatStep list \<times> bool)" where
  "parse_loop pfx s steps hasNamedField =
     (case IndexByte s CHR ''>'' of
        None \<Rightarrow> Inl (MissingClose s)
      | Some n \<Rightarrow>
          (let fld0 = take n s;
               s1 = drop (n + 1) s;
               fld = (if fld0 = ''_'' \<or> fld0 = ''*'' then [] else fld0);
               steps1 = steps @ [\<lparr>prefix = pfx, field = fld\<rparr>];
               hasNamedField1 = (hasNamedField \<or> fld \<noteq> [])
           in if s1 = [] then Inr (steps1, hasNamedField1)
              else (case IndexByte s1 CHR ''<'' of
                      None \<Rightarrow> Inr (steps1 @ [\<lparr>prefix = s1, field = []\<rparr>], hasNamedField1)
                    | Some m \<Rightarrow>
                        if m = 0 then Inl (MissingDelimiter fld)
                        else parse_loop (take m s1) (drop (m + 1) s1) steps1 hasNamedField1)))"
  by pat_completeness auto
termination
  by (relation "measure (\<lambda>(pfx, s, steps, named). length s)") auto

definition parseExtractFormatSteps ::
  "(string \<Rightarrow> string) \<Rightarrow> string \<Rightarrow> parse_error + extractFormatStep list" where
  "parseExtractFormatSteps unescapeEntities s =
     (case IndexByte s CHR ''<'' of
        None \<Rightarrow> Inl MissingFields
      | Some n \<Rightarrow>
          (case parse_loop (take n s) (drop (n + 1) s) [] False of
             Inl e \<Rightarrow> Inl e
           | Inr (steps, hasNamedField) \<Rightarrow>
               if \<not> hasNamedField then Inl MissingNamedFields
               else Inr (map (\<lambda>step. step\<lparr>prefix := UnescapeString unescapeEntities (prefix step)\<rparr>)
                           steps)))"

section \<open>Quoted strings: the part of Go's \<^verbatim>\<open>strconv\<close> and \<^verbatim>\<open>unicode/utf8\<close> that the matcher calls\<close>

text \<open>
  \<^verbatim>\<open>strconv.QuotedPrefix\<close>, \<^verbatim>\<open>strconv.Unquote\<close> and the UTF-8 routines they use belong
  to the Go standard library.  They are written out here after the library's behaviour, on
  bytes.  Runes are natural numbers; a rune that would be negative as an \<^verbatim>\<open>int32\<close> (eight
  hex digits after \<^verbatim>\<open>\U\<close> with the top bit set) is a number above \<^verbatim>\<open>0x10FFFF\<close> here, and
  both are rejected by \<^verbatim>\<open>utf8.ValidRune\<close>.
\<close>

definition dquote :: char where "dquote = CHR 0x22"
definition squote :: char where "squote = CHR 0x27"
definition backtick :: char where "backtick = CHR 0x60"
definition backslash :: char where "backslash = CHR 0x5C"
definition newline :: char where "newline = CHR 0x0A"
definition carriage_return :: char where "carriage_return = CHR 0x0D"

definition RuneError :: nat where "RuneError = 0xFFFD"

definition cont_byte :: "nat \<Rightarrow> bool" where
  "cont_byte b = (0x80 \<le> b \<and> b \<le> 0xBF)"

text \<open>\<^verbatim>\<open>utf8.DecodeRuneInString\<close>: the first rune and its width in bytes.\<close>

fun DecodeRune :: "nat list \<Rightarrow> nat \<times> nat" where
  "DecodeRune [] = (RuneError, 0)"
| "DecodeRune (b0 # bs) =
     (if b0 < 0x80 then (b0, 1)
      else if 0xC2 \<le> b0 \<and> b0 \<le> 0xDF then
        (case bs of
           b1 # _ \<Rightarrow>
             if cont_byte b1 then ((b0 mod 0x20) * 0x40 + b1 mod 0x40, 2) else (RuneError, 1)
         | _ \<Rightarrow> (RuneError, 1))
      else if 0xE0 \<le> b0 \<and> b0 \<le> 0xEF then
        (case bs of
           b1 # b2 # _ \<Rightarrow>
             if (if b0 = 0xE0 then 0xA0 else 0x80) \<le> b1
                \<and> b1 \<le> (if b0 = 0xED then 0x9F else 0xBF) \<and> cont_byte b2
             then ((b0 mod 0x10) * 0x1000 + (b1 mod 0x40) * 0x40 + b2 mod 0x40, 3)
             else (RuneError, 1)
         | _ \<Rightarrow> (RuneError, 1))
      else if 0xF0 \<le> b0 \<and> b0 \<le> 0xF4 then
        (case bs of
           b1 # b2 # b3 # _ \<Rightarrow>
             if (if b0 = 0xF0 then 0x90 else 0x80) \<le> b1
                \<and> b1 \<le> (if b0 = 0xF4 then 0x8F else 0xBF) \<and> cont_byte b2 \<and> cont_byte b3
             then ((b0 mod 0x08) * 0x40000 + (b1 mod 0x40) * 0x1000
                     + (b2 mod 0x40) * 0x40 + b3 mod 0x40, 4)
             else (RuneError, 1)
         | _ \<Rightarrow> (RuneError, 1))
      else (RuneError, 1))"

lemma DecodeRune_width: "bs \<noteq> [] \<Longrightarrow> 1 \<le> snd (DecodeRune bs)"
  by (cases bs) (auto split: list.splits)

lemma DecodeRune_shorter:
  assumes "(r, w) = DecodeRune bs" and "bs \<noteq> []"
  shows "length (drop w bs) < length bs"
proof -
  from assms have "1 \<le> w"
    using DecodeRune_width [of bs] by (metis snd_conv)
  with assms(2) show ?thesis by (cases bs) auto
qed

text \<open>\<^verbatim>\<open>utf8.ValidString\<close>: every rune decodes without error.\<close>

function ValidString :: "nat list \<Rightarrow> bool" where
  "ValidString bs =
     (if bs = [] then True
      else (case DecodeRune bs of
              (r, width) \<Rightarrow>
                if r = RuneError \<and> width = 1 then False else ValidString (drop width bs)))"
  by pat_completeness auto
termination
  by (relation "measure length") (auto dest: DecodeRune_shorter)

definition ValidRune :: "nat \<Rightarrow> bool" where
  "ValidRune r = (r < 0xD800 \<or> (0xDFFF < r \<and> r \<le> 0x10FFFF))"

text \<open>\<^verbatim>\<open>utf8.AppendRune\<close> to an empty buffer: the UTF-8 encoding of a rune.\<close>

definition AppendRune :: "nat \<Rightarrow> nat list" where
  "AppendRune r =
     (if r < 0x80 then [r]
      else if r < 0x800 then [0xC0 + r div 0x40, 0x80 + r mod 0x40]
      else if \<not> ValidRune r then [0xEF, 0xBF, 0xBD]
      else if r < 0x10000 then
        [0xE0 + r div 0x1000, 0x80 + (r div 0x40) mod 0x40, 0x80 + r mod 0x40]
      else [0xF0 + r div 0x40000, 0x80 + (r div 0x1000) mod 0x40,
            0x80 + (r div 0x40) mod 0x40, 0x80 + r mod 0x40])"

definition unhex :: "char \<Rightarrow> nat option" where
  "unhex c =
     (let b = (of_char c :: nat) in
      if 0x30 \<le> b \<and> b \<le> 0x39 then Some (b - 0x30)
      else if 0x61 \<le> b \<and> b \<le> 0x66 then Some (b - 0x61 + 10)
      else if 0x41 \<le> b \<and> b \<le> 0x46 then Some (b - 0x41 + 10)
      else None)"

fun hexval :: "string \<Rightarrow> nat \<Rightarrow> nat option" where
  "hexval [] v = Some v"
| "hexval (c # cs) v = (case unhex c of None \<Rightarrow> None | Some x \<Rightarrow> hexval cs (v * 16 + x))"

fun octval :: "string \<Rightarrow> nat \<Rightarrow> nat option" where
  "octval [] v = Some v"
| "octval (c # cs) v =
     (let b = (of_char c :: nat) in
      if 0x30 \<le> b \<and> b \<le> 0x37 then octval cs (v * 8 + (b - 0x30)) else None)"

text \<open>
  \<^verbatim>\<open>strconv.UnquoteChar\<close>: the value of the first character or escape sequence, whether it
  is to be written as UTF-8, and the rest of the input.  \<^term>\<open>None\<close> is \<^verbatim>\<open>ErrSyntax\<close>.
\<close>

definition UnquoteChar :: "string \<Rightarrow> char \<Rightarrow> (nat \<times> bool \<times> string) option" where
  "UnquoteChar s quote =
     (case s of
        [] \<Rightarrow> None
      | c # rest \<Rightarrow>
          if c = quote \<and> (quote = squote \<or> quote = dquote) then None
          else if (0x80 :: nat) \<le> of_char c then
            (case DecodeRune (map of_char s) of (r, width) \<Rightarrow> Some (r, True, drop width s))
          else if c \<noteq> backslash then Some (of_char c, False, rest)
          else
            (case rest of
               [] \<Rightarrow> None
             | e # s2 \<Rightarrow>
                 if e = CHR ''a'' then Some (0x07, False, s2)
                 else if e = CHR ''b'' then Some (0x08, False, s2)
                 else if e = CHR ''f'' then Some (0x0C, False, s2)
                 else if e = CHR ''n'' then Some (0x0A, False, s2)
                 else if e = CHR ''r'' then Some (0x0D, False, s2)
                 else if e = CHR ''t'' then Some (0x09, False, s2)
                 else if e = CHR ''v'' then Some (0x0B, False, s2)
                 else if e = CHR ''x'' \<or> e = CHR ''u'' \<or> e = CHR ''U'' then
                   (let n = (if e = CHR ''x'' then 2 else if e = CHR ''u'' then 4 else 8 :: nat)
                    in if length s2 < n then None
                       else (case hexval (take n s2) 0 of
                               None \<Rightarrow> None
                             | Some v \<Rightarrow>
                                 if e = CHR ''x'' then Some (v, False, drop n s2)
                                 else if \<not> ValidRune v then None
                                 else Some (v, True, drop n s2)))
                 else if (0x30 :: nat) \<le> of_char e \<and> of_char e \<le> (0x37 :: nat) then
                   (if length s2 < 2 then None
                    else (case octval (take 2 s2) (of_char e - 0x30) of
                            None \<Rightarrow> None
                          | Some v \<Rightarrow> if 255 < v then None else Some (v, False, drop 2 s2)))
                 else if e = backslash then Some (of_char backslash, False, s2)
                 else if e = squote \<or> e = dquote then
                   (if e \<noteq> quote then None else Some (of_char e, False, s2))
                 else None))"

lemma UnquoteChar_shorter:
  assumes "UnquoteChar s quote = Some (r, mb, rest)"
  shows "length rest < length s"
proof (cases s)
  case Nil
  with assms show ?thesis by (simp add: UnquoteChar_def)
next
  case (Cons c cs)
  have w: "1 \<le> snd (DecodeRune (map of_char s))"
    using DecodeRune_width [of "map of_char s"] Cons by simp
  show ?thesis
  proof (cases "c = quote \<and> (quote = squote \<or> quote = dquote)")
    case True
    with assms Cons show ?thesis by (simp add: UnquoteChar_def)
  next
    case nq: False
    show ?thesis
    proof (cases "(0x80 :: nat) \<le> of_char c")
      case True
      with assms Cons nq have "rest = drop (snd (DecodeRune (map of_char s))) s"
        by (auto simp: UnquoteChar_def simp del: DecodeRune.simps split: prod.splits)
      with w Cons show ?thesis by simp
    next
      case False
      with assms Cons nq show ?thesis
        by (auto simp: UnquoteChar_def Let_def split: if_splits list.splits option.splits)
    qed
  qed
qed

text \<open>
  The loop of \<^verbatim>\<open>strconv.unquote\<close> over the body of a quoted string with escape sequences.
  It returns the unescaped bytes and the input from the closing quote on.
\<close>

function unquote_loop :: "string \<Rightarrow> char \<Rightarrow> string \<Rightarrow> (string \<times> string) option" where
  "unquote_loop inp quote buf =
     (if inp \<noteq> [] \<and> hd inp \<noteq> quote then
        (case UnquoteChar inp quote of
           None \<Rightarrow> None
         | Some (r, multibyte, rest) \<Rightarrow>
             if hd inp = newline then None
             else unquote_loop rest quote
                    (buf @ (if r < 0x80 \<or> \<not> multibyte then [char_of r]
                            else map char_of (AppendRune r))))
      else Some (buf, inp))"
  by pat_completeness auto
termination
  by (relation "measure (\<lambda>(inp, quote, buf). length inp)")
     (auto dest: UnquoteChar_shorter)

text \<open>
  \<^verbatim>\<open>strconv.unquote\<close> for a string that opens with a double quote or a backtick: the
  quoted prefix (unescaped when \<open>unescape\<close> is set) and the text after it.  The third
  form, a rune literal in single quotes, is never passed by \<^verbatim>\<open>tryUnquoteString\<close>, which
  tests the first byte before the call; it is \<^term>\<open>None\<close> here with every other first byte.
\<close>

definition unquote :: "string \<Rightarrow> bool \<Rightarrow> (string \<times> string) option" where
  "unquote inp unescape =
     (if length inp < 2 then None
      else
        (let quote = hd inp in
         case IndexByte (tl inp) quote of
           None \<Rightarrow> None
         | Some e \<Rightarrow>
             (let e2 = e + 2; body = take e (tl inp) in
              if quote = backtick then
                Some (if \<not> unescape then take e2 inp
                      else if carriage_return \<notin> set (take e2 inp) then body
                      else filter (\<lambda>c. c \<noteq> carriage_return) body,
                      drop e2 inp)
              else if quote = dquote then
                (if backslash \<notin> set (take e2 inp) \<and> newline \<notin> set (take e2 inp)
                    \<and> ValidString (map of_char body)
                 then Some (if unescape then body else take e2 inp, drop e2 inp)
                 else
                   (case unquote_loop (tl inp) quote [] of
                      None \<Rightarrow> None
                    | Some (buf, in1) \<Rightarrow>
                        if \<not> (in1 \<noteq> [] \<and> hd in1 = quote) then None
                        else
                          (let in2 = tl in1 in
                           Some (if unescape then buf
                                 else take (length inp - length in2) inp, in2))))
              else None)))"

definition QuotedPrefix :: "string \<Rightarrow> string option" where
  "QuotedPrefix s = map_option fst (unquote s False)"

definition Unquote :: "string \<Rightarrow> string option" where
  "Unquote s =
     (case unquote s True of
        None \<Rightarrow> None
      | Some (out, rest) \<Rightarrow> if rest \<noteq> [] then None else Some out)"

section \<open>The matcher\<close>

definition tryUnquoteString :: "string \<Rightarrow> string \<times> nat \<times> bool" where
  "tryUnquoteString s =
     (if length s = 0 then (s, 0, False)
      else if hd s \<noteq> dquote \<and> hd s \<noteq> backtick then (s, 0, False)
      else (case QuotedPrefix s of
              None \<Rightarrow> (s, 0, False)
            | Some qp \<Rightarrow>
                (case Unquote qp of
                   None \<Rightarrow> (s, 0, False)
                 | Some us \<Rightarrow> (us, length qp, True))))"

text \<open>
  A Go run-time panic ends the call; it is the left summand of a result.  The two
  \<^verbatim>\<open>logger.Panicf\<close> calls of \<^verbatim>\<open>newExtractFormat\<close> and an index beyond the end of a slice
  are the panics this code can raise.
\<close>

datatype panic = BugStepsEmpty | BugFieldsEmpty | IndexOutOfRange | MakeSliceLenOutOfRange

text \<open>
  The field \<^verbatim>\<open>value *string\<close> of \<^verbatim>\<open>extractField\<close> points at \<^verbatim>\<open>matches[i]\<close>; the pointer is
  the index \<open>i\<close>, and reading through it is \<open>matches ef ! i\<close>.  The slice \<^verbatim>\<open>fields\<close>
  of \<^verbatim>\<open>extractFormat\<close> is the record field \<open>ef_fields\<close>.
\<close>

record extractField =
  name :: string
  value_ptr :: nat

record extractFormat =
  steps :: "extractFormatStep list"
  matches :: "string list"
  ef_fields :: "extractField list"

definition newExtractFormat :: "extractFormatStep list \<Rightarrow> panic + extractFormat" where
  "newExtractFormat stps =
     (if length stps = 0 then Inl BugStepsEmpty
      else
        (let ms = replicate (length stps) [];
             fs = map (\<lambda>(i, step). \<lparr>name = field step, value_ptr = i\<rparr>)
                    (filter (\<lambda>(i, step). field step \<noteq> []) (enumerate 0 stps))
         in if length fs = 0 then Inl BugFieldsEmpty
            else Inr \<lparr>steps = stps, matches = ms, ef_fields = fs\<rparr>))"

text \<open>
  The loop \<^verbatim>\<open>for i := range steps\<close> of \<^verbatim>\<open>apply\<close>, from index \<open>i\<close> on, with the buffer
  \<open>ms\<close> and the unread input \<open>s\<close>.  Every \<^verbatim>\<open>return\<close> of the loop body ends it with the
  buffer as it is then.
\<close>

function apply_loop ::
  "extractFormatStep list \<Rightarrow> nat \<Rightarrow> string list \<Rightarrow> string \<Rightarrow> panic + string list" where
  "apply_loop stps i ms s =
     (if i < length stps then
        (let nextPrefix = (if i + 1 < length stps then prefix (stps ! (i + 1)) else [])
         in case tryUnquoteString s of
              (us, nOffset, ok) \<Rightarrow>
                if ok then
                  (if i < length ms then
                     (let ms1 = ms[i := us]; s1 = drop nOffset s
                      in if \<not> HasPrefix s1 nextPrefix then Inr ms1
                         else apply_loop stps (i + 1) ms1 (drop (length nextPrefix) s1))
                   else Inl IndexOutOfRange)
                else if nextPrefix = [] then
                  (if i < length ms then Inr (ms[i := s]) else Inl IndexOutOfRange)
                else
                  (case Index s nextPrefix of
                     None \<Rightarrow> Inr ms
                   | Some n \<Rightarrow>
                       if i < length ms
                       then apply_loop stps (i + 1) (ms[i := take n s])
                              (drop (n + length nextPrefix) s)
                       else Inl IndexOutOfRange))
      else Inr ms)"
  by pat_completeness auto
termination
  by (relation "measure (\<lambda>(stps, i, ms, s). length stps - i)") auto

text \<open>
  \<^verbatim>\<open>(ef *extractFormat) apply(s)\<close>.  The method updates \<^verbatim>\<open>ef.matches\<close> in place; the model
  returns the matcher with the new buffer.
\<close>

definition extractFormat_apply :: "extractFormat \<Rightarrow> string \<Rightarrow> panic + extractFormat" where
  "extractFormat_apply ef s =
     (let ms = map (\<lambda>m. []) (matches ef);
          stps = steps ef
      in case stps of
           [] \<Rightarrow> Inl IndexOutOfRange
         | step0 # rest \<Rightarrow>
             if prefix step0 \<noteq> [] then
               (case Index s (prefix step0) of
                  None \<Rightarrow> Inr (ef\<lparr>matches := ms\<rparr>)
                | Some n \<Rightarrow>
                    map_sum id (\<lambda>ms1. ef\<lparr>matches := ms1\<rparr>)
                      (apply_loop stps 0 ms (drop (n + length (prefix step0)) s)))
             else map_sum id (\<lambda>ms1. ef\<lparr>matches := ms1\<rparr>) (apply_loop stps 0 ms s))"

text \<open>What a reader of the \<^verbatim>\<open>fields\<close> view sees: each name with the string it points at.\<close>

definition fieldValues :: "extractFormat \<Rightarrow> (string \<times> string) list" where
  "fieldValues ef = map (\<lambda>f. (name f, matches ef ! value_ptr f)) (ef_fields ef)"

section \<open>The extract pipe and its processor\<close>

text \<open>
  \<^verbatim>\<open>pipeExtract\<close>.  Its fields \<^verbatim>\<open>field\<close> and \<^verbatim>\<open>steps\<close> are \<open>pe_field\<close> and \<open>pe_steps\<close>
  here, the short names being taken by the records above.
\<close>

record pipeExtract =
  pe_field :: string
  pe_steps :: "extractFormatStep list"
  stepsStr :: string

text \<open>
  Modelled from the spec: the type \<^verbatim>\<open>fieldsSet\<close> and its methods \<^verbatim>\<open>add\<close> and \<^verbatim>\<open>remove\<close>
  are not among the sources.  The spec calls the two arguments sets of field names, to
  which a name is added and from which a name is removed.
\<close>

type_synonym fieldsSet = "string set"

definition add :: "fieldsSet \<Rightarrow> string \<Rightarrow> fieldsSet" where
  "add fs f = insert f fs"

definition remove :: "fieldsSet \<Rightarrow> string \<Rightarrow> fieldsSet" where
  "remove fs f = fs - {f}"

text \<open>
  \<^verbatim>\<open>updateNeededFields\<close> changes both sets in place; the model returns the pair of them.
\<close>

fun remove_step_fields :: "extractFormatStep list \<Rightarrow> fieldsSet \<Rightarrow> fieldsSet" where
  "remove_step_fields [] unneededFields = unneededFields"
| "remove_step_fields (step # rest) unneededFields =
     remove_step_fields rest
       (if field step \<noteq> [] then remove unneededFields (field step) else unneededFields)"

definition updateNeededFields ::
  "pipeExtract \<Rightarrow> fieldsSet \<Rightarrow> fieldsSet \<Rightarrow> fieldsSet \<times> fieldsSet" where
  "updateNeededFields pe neededFields unneededFields =
     (add neededFields (pe_field pe), remove_step_fields (pe_steps pe) unneededFields)"

text \<open>
  A block of rows.  Only the number of timestamps and the columns' strings matter here.
\<close>

record blockResult =
  timestamps :: "int list"
  columns :: "(string \<times> string list) list"

text \<open>
  Modelled from the spec: \<^verbatim>\<open>getColumnByName\<close> and \<^verbatim>\<open>getValues\<close> of the block layer are not
  among the sources.  By the spec a column yields one string per row of the block; a name
  the block has no column for is read as a column of empty strings.
\<close>

definition getColumnByName :: "blockResult \<Rightarrow> string \<Rightarrow> string list option" where
  "getColumnByName br nm = map_of (columns br) nm"

definition getValues :: "string list option \<Rightarrow> blockResult \<Rightarrow> string list" where
  "getValues c br =
     (case c of Some vs \<Rightarrow> vs | None \<Rightarrow> replicate (length (timestamps br)) [])"

text \<open>
  \<^verbatim>\<open>pipeExtractProcessor\<close>.  The downstream processor \<^verbatim>\<open>ppBase\<close> is represented by the
  list of the calls \<^verbatim>\<open>writeBlock(workerID, br)\<close> it has received; the padding of a shard
  and the channel \<^verbatim>\<open>stopCh\<close>, which this code never reads, are left out.
\<close>

record pipeExtractProcessor =
  pe :: pipeExtract
  ppBase :: "(nat \<times> blockResult) list"
  shards :: "extractFormat list"

fun make_shards :: "nat \<Rightarrow> extractFormatStep list \<Rightarrow> panic + extractFormat list" where
  "make_shards 0 stps = Inr []"
| "make_shards (Suc n) stps =
     (case newExtractFormat stps of
        Inl p \<Rightarrow> Inl p
      | Inr ef \<Rightarrow> map_sum id (\<lambda>efs. ef # efs) (make_shards n stps))"

text \<open>
  \<^verbatim>\<open>make([]pipeExtractProcessorShard, workersCount)\<close> panics (\<^verbatim>\<open>makeslice: len out of range\<close>)
  when the count is negative or the slice would be larger than the run time's bound
  \<^verbatim>\<open>maxAlloc\<close>.  A shard is one pointer padded to 128 bytes.  \<^verbatim>\<open>maxAlloc\<close> is \<^verbatim>\<open>1 << 48\<close> on
  the 64-bit targets with 48-bit heap addresses (linux/amd64 among them), which is the
  value taken here.  Running out of memory below that bound ends the process and is not
  modelled.
\<close>

definition shardSize :: int where
  "shardSize = 128"

definition maxAlloc :: int where
  "maxAlloc = 2 ^ 48"

definition newPipeProcessor ::
  "pipeExtract \<Rightarrow> int \<Rightarrow> (nat \<times> blockResult) list \<Rightarrow> panic + pipeExtractProcessor" where
  "newPipeProcessor p workersCount base =
     (if workersCount < 0 \<or> maxAlloc < shardSize * workersCount then Inl MakeSliceLenOutOfRange
      else map_sum id (\<lambda>shs. \<lparr>pe = p, ppBase = base, shards = shs\<rparr>)
             (make_shards (nat workersCount) (pe_steps p)))"

text \<open>The loop \<^verbatim>\<open>for _, v := range values { ef.apply(v) }\<close> of \<^verbatim>\<open>writeBlock\<close>.\<close>

fun apply_values :: "extractFormat \<Rightarrow> string list \<Rightarrow> panic + extractFormat" where
  "apply_values ef [] = Inr ef"
| "apply_values ef (v # vs) =
     (case extractFormat_apply ef v of
        Inl p \<Rightarrow> Inl p
      | Inr ef1 \<Rightarrow> apply_values ef1 vs)"

definition writeBlock ::
  "pipeExtractProcessor \<Rightarrow> nat \<Rightarrow> blockResult \<Rightarrow> panic + pipeExtractProcessor" where
  "writeBlock pep workerID br =
     (if length (timestamps br) = 0 then Inr pep
      else if workerID < length (shards pep) then
        (let c = getColumnByName br (pe_field (pe pep));
             vals = getValues c br
         in case apply_values (shards pep ! workerID) vals of
              Inl p \<Rightarrow> Inl p
            | Inr ef \<Rightarrow> Inr (pep\<lparr>shards := (shards pep)[workerID := ef]\<rparr>))
      else Inl IndexOutOfRange)"

section \<open>Notions the claims speak of\<close>

text \<open>
  The local variable \<^verbatim>\<open>nextPrefix\<close> of the loop body at index \<open>i\<close>, named so that the
  lemmas below can speak of it.
\<close>

definition nextPrefix_at :: "extractFormatStep list \<Rightarrow> nat \<Rightarrow> string" where
  "nextPrefix_at stps i = (if i + 1 < length stps then prefix (stps ! (i + 1)) else [])"

text \<open>
  The failing step of a run of \<^verbatim>\<open>apply\<close>: the index of the step at which the run takes
  one of its returns marked \<^verbatim>\<open>// Mismatch\<close>, and \<^term>\<open>None\<close> when it takes none.  It is
  step 0 when the first literal is not in the input, step \<open>i\<close> when the literal that ends
  the unquoted capture \<open>i\<close> is not found, and step \<open>i + 1\<close> when the literal of step
  \<open>i + 1\<close> does not follow the quoted capture \<open>i\<close>.  The recursion is that of
  \<^verbatim>\<open>apply\<close>, without the buffer.
\<close>

function failing_loop :: "extractFormatStep list \<Rightarrow> nat \<Rightarrow> string \<Rightarrow> nat option" where
  "failing_loop stps i s =
     (if i < length stps then
        (let nextPrefix = (if i + 1 < length stps then prefix (stps ! (i + 1)) else [])
         in case tryUnquoteString s of
              (us, nOffset, ok) \<Rightarrow>
                if ok then
                  (if \<not> HasPrefix (drop nOffset s) nextPrefix then Some (i + 1)
                   else failing_loop stps (i + 1) (drop (length nextPrefix) (drop nOffset s)))
                else if nextPrefix = [] then None
                else
                  (case Index s nextPrefix of
                     None \<Rightarrow> Some i
                   | Some n \<Rightarrow> failing_loop stps (i + 1) (drop (n + length nextPrefix) s)))
      else None)"
  by pat_completeness auto
termination
  by (relation "measure (\<lambda>(stps, i, s). length stps - i)") auto

definition failing_step :: "extractFormatStep list \<Rightarrow> string \<Rightarrow> nat option" where
  "failing_step stps s =
     (case stps of
        [] \<Rightarrow> None
      | step0 # rest \<Rightarrow>
          if prefix step0 \<noteq> [] then
            (case Index s (prefix step0) of
               None \<Rightarrow> Some 0
             | Some n \<Rightarrow> failing_loop stps 0 (drop (n + length (prefix step0)) s))
          else failing_loop stps 0 s)"

text \<open>
  The loop of \<^verbatim>\<open>writeBlock\<close> again, keeping the matcher as it is after every row: these
  are the values a reader of the matcher sees row by row.
\<close>

fun apply_each :: "extractFormat \<Rightarrow> string list \<Rightarrow> panic + extractFormat list" where
  "apply_each ef [] = Inr []"
| "apply_each ef (v # vs) =
     (case extractFormat_apply ef v of
        Inl p \<Rightarrow> Inl p
      | Inr ef1 \<Rightarrow> map_sum id (\<lambda>efs. ef1 # efs) (apply_each ef1 vs))"

text \<open>
  Rows are dealt to shards by a list \<open>ws\<close> of worker ids, one per row; shard \<open>k\<close> gets
  the subsequence of the entries whose worker id is \<open>k\<close>.
\<close>

definition rows_of_shard :: "nat \<Rightarrow> nat list \<Rightarrow> 'a list \<Rightarrow> 'a list" where
  "rows_of_shard k ws xs = map snd (filter (\<lambda>(w, x). w = k) (zip ws xs))"

text \<open>The name a capture gets in \<^verbatim>\<open>parseExtractFormatSteps\<close>: empty for \<^verbatim>\<open>_\<close> and \<^verbatim>\<open>*\<close>.\<close>

definition capture_name :: "string \<Rightarrow> string" where
  "capture_name f = (if f = ''_'' \<or> f = ''*'' then [] else f)"

text \<open>
  The words of the parser's error cases, said of the pattern text itself.  A capture opens
  at the first \<^verbatim>\<open><\<close> of the pattern; its name runs up to the next \<^verbatim>\<open>>\<close>, which closes it; the
  next capture opens at the first \<^verbatim>\<open><\<close> after that \<^verbatim>\<open>>\<close>, the text in between being the
  delimiter.  \<open>next_capture r r'\<close>: \<open>r\<close> is the text after the \<^verbatim>\<open><\<close> of a capture and \<open>r'\<close> the
  text after the \<^verbatim>\<open><\<close> of the capture that follows it.  \<open>capture_opens s r\<close>: in the
  pattern \<open>s\<close> a capture opens with \<open>r\<close> as the text after its \<^verbatim>\<open><\<close>.
\<close>

definition next_capture :: "string \<Rightarrow> string \<Rightarrow> bool" where
  "next_capture r r' \<longleftrightarrow>
     (\<exists>f d. r = f @ CHR ''>'' # d @ CHR ''<'' # r' \<and> CHR ''>'' \<notin> set f \<and> CHR ''<'' \<notin> set d)"

definition capture_opens :: "string \<Rightarrow> string \<Rightarrow> bool" where
  "capture_opens s r \<longleftrightarrow>
     (\<exists>p r0. s = p @ CHR ''<'' # r0 \<and> CHR ''<'' \<notin> set p \<and> rtranclp next_capture r0 r)"

text \<open>
  A capture has no matching \<^verbatim>\<open>>\<close>; a \<^verbatim>\<open><\<close> comes right after the \<^verbatim>\<open>>\<close> of a capture; a
  capture has a name other than the empty one, \<^verbatim>\<open>_\<close> and \<^verbatim>\<open>*\<close>.
\<close>

definition unterminated_capture :: "string \<Rightarrow> bool" where
  "unterminated_capture s \<longleftrightarrow> (\<exists>r. capture_opens s r \<and> CHR ''>'' \<notin> set r)"

definition zero_length_delimiter :: "string \<Rightarrow> bool" where
  "zero_length_delimiter s \<longleftrightarrow>
     (\<exists>f t. capture_opens s (f @ CHR ''>'' # CHR ''<'' # t) \<and> CHR ''>'' \<notin> set f)"

definition has_named_capture :: "string \<Rightarrow> bool" where
  "has_named_capture s \<longleftrightarrow>
     (\<exists>f t. capture_opens s (f @ CHR ''>'' # t) \<and> CHR ''>'' \<notin> set f
            \<and> f \<noteq> [] \<and> f \<noteq> ''_'' \<and> f \<noteq> ''*'')"

text \<open>The properties of the text after an opening \<^verbatim>\<open><\<close>, along the chain of captures.\<close>

definition unterminated_from :: "string \<Rightarrow> bool" where
  "unterminated_from r \<longleftrightarrow> (\<exists>r'. rtranclp next_capture r r' \<and> CHR ''>'' \<notin> set r')"

definition zero_delimiter_from :: "string \<Rightarrow> bool" where
  "zero_delimiter_from r \<longleftrightarrow> (\<exists>r' f t. rtranclp next_capture r r' \<and> r' = f @ CHR ''>'' # CHR ''<'' # t
                   \<and> CHR ''>'' \<notin> set f)"

definition named_capture_from :: "string \<Rightarrow> bool" where
  "named_capture_from r \<longleftrightarrow> (\<exists>r' f t. rtranclp next_capture r r' \<and> r' = f @ CHR ''>'' # t
                   \<and> CHR ''>'' \<notin> set f \<and> f \<noteq> [] \<and> f \<noteq> ''_'' \<and> f \<noteq> ''*'')"

text \<open>
  A pattern written out from its parts: the captures in order, each a pair of the literal
  before its \<^verbatim>\<open><\<close> and the name between \<^verbatim>\<open><\<close> and \<^verbatim>\<open>>\<close>, and the literal \<open>t\<close> after the last
  capture.  The parts are well formed when there is a capture, no literal holds a \<^verbatim>\<open><\<close>, no
  name holds a \<^verbatim>\<open>>\<close>, every literal between two captures is non-empty and some capture has
  a name.  The step list of such a pattern has one step per capture, in order, with the
  literal unescaped and the name normalised, and a last step without a name for a
  non-empty \<open>t\<close>.
\<close>

definition capture_segment :: "string \<times> string \<Rightarrow> string" where
  "capture_segment c = fst c @ CHR ''<'' # snd c @ [CHR ''>'']"

definition pattern_text :: "(string \<times> string) list \<Rightarrow> string \<Rightarrow> string" where
  "pattern_text caps t = concat (map capture_segment caps) @ t"

definition later_captures_ok :: "(string \<times> string) list \<Rightarrow> string \<Rightarrow> bool" where
  "later_captures_ok caps t \<longleftrightarrow>
     (\<forall>c \<in> set caps. fst c \<noteq> [] \<and> CHR ''<'' \<notin> set (fst c) \<and> CHR ''>'' \<notin> set (snd c))
     \<and> CHR ''<'' \<notin> set t"

definition well_formed_pattern :: "(string \<times> string) list \<Rightarrow> string \<Rightarrow> bool" where
  "well_formed_pattern caps t \<longleftrightarrow>
     (case caps of
        [] \<Rightarrow> False
      | c # rest \<Rightarrow>
          CHR ''<'' \<notin> set (fst c) \<and> CHR ''>'' \<notin> set (snd c) \<and> later_captures_ok rest t)
     \<and> (\<exists>c \<in> set caps. capture_name (snd c) \<noteq> [])"

definition raw_steps :: "(string \<times> string) list \<Rightarrow> string \<Rightarrow> extractFormatStep list" where
  "raw_steps caps t =
     map (\<lambda>c. \<lparr>prefix = fst c, field = capture_name (snd c)\<rparr>) caps
     @ (if t = [] then [] else [\<lparr>prefix = t, field = []\<rparr>])"

definition steps_of_pattern ::
  "(string \<Rightarrow> string) \<Rightarrow> (string \<times> string) list \<Rightarrow> string \<Rightarrow> extractFormatStep list" where
  "steps_of_pattern unescapeEntities caps t =
     map (\<lambda>step. step\<lparr>prefix := UnescapeString unescapeEntities (prefix step)\<rparr>) (raw_steps caps t)"

text \<open>
  The string built from a step list and one value per step: each step's literal followed
  by its value, in order.
\<close>

fun render :: "extractFormatStep list \<Rightarrow> string list \<Rightarrow> string" where
  "render [] vs = []"
| "render (st # sts) [] = prefix st @ render sts []"
| "render (st # sts) (v # vs) = prefix st @ v @ render sts vs"

definition contains_str :: "string \<Rightarrow> string \<Rightarrow> bool" where
  "contains_str s sub = (Index s sub \<noteq> None)"

fun values_avoid_next_prefix :: "extractFormatStep list \<Rightarrow> string list \<Rightarrow> bool" where
  "values_avoid_next_prefix (st # st2 # rest) (v # vs) =
     (\<not> contains_str v (prefix st2) \<and> values_avoid_next_prefix (st2 # rest) vs)"
| "values_avoid_next_prefix [st] [v] = True"
| "values_avoid_next_prefix sts vs = (sts = [] \<and> vs = [])"

definition quoted_at :: "string \<Rightarrow> bool" where
  "quoted_at s = snd (snd (tryUnquoteString s))"

fun roundtrip_ok :: "extractFormatStep list \<Rightarrow> string list \<Rightarrow> bool" where
  "roundtrip_ok (st # st2 # rest) (v # vs) =
     (prefix st2 \<noteq> [] \<and> \<not> quoted_at (v @ render (st2 # rest) vs)
      \<and> Index (v @ prefix st2) (prefix st2) = Some (length v)
      \<and> roundtrip_ok (st2 # rest) vs)"
| "roundtrip_ok [st] [v] = (\<not> quoted_at v)"
| "roundtrip_ok sts vs = False"

section \<open>Example data\<close>

text \<open>The steps of the pattern \<^verbatim>\<open>a=<x> b=<y>\<close>.\<close>

definition steps_a_b :: "extractFormatStep list" where
  "steps_a_b = [\<lparr>prefix = ''a='', field = ''x''\<rparr>, \<lparr>prefix = '' b='', field = ''y''\<rparr>]"


text \<open>The steps of the pattern \<^verbatim>\<open>k=<x>\<close>.\<close>

definition steps_k :: "extractFormatStep list" where
  "steps_k = [\<lparr>prefix = ''k='', field = ''x''\<rparr>]"

text \<open>The pipe \<^verbatim>\<open>extract(_msg, "k=<x>")\<close> and a block of one row.\<close>

definition pipe_k :: pipeExtract where
  "pipe_k = \<lparr>pe_field = ''_msg'', pe_steps = steps_k, stepsStr = ''k=<x>''\<rparr>"

definition block_one_row :: blockResult where
  "block_one_row = \<lparr>timestamps = [0], columns = [(''_msg'', [''k=v''])]\<rparr>"

text \<open>The steps of the pattern \<^verbatim>\<open><x>aa<y>\<close>.\<close>

definition steps_x_aa_y :: "extractFormatStep list" where
  "steps_x_aa_y = [\<lparr>prefix = [], field = ''x''\<rparr>, \<lparr>prefix = ''aa'', field = ''y''\<rparr>]"

section \<open>One iteration of the matching loop\<close>

declare apply_loop.simps [simp del]
declare failing_loop.simps [simp del]
declare parse_loop.simps [simp del]
declare ValidString.simps [simp del]
declare unquote_loop.simps [simp del]

lemma apply_loop_done:
  "\<not> i < length stps \<Longrightarrow> apply_loop stps i ms s = Inr ms"
  by (subst apply_loop.simps) simp

lemma apply_loop_quoted:
  assumes "i < length stps" and "tryUnquoteString s = (us, n, True)"
  shows "apply_loop stps i ms s =
    (if i < length ms then
       (if \<not> HasPrefix (drop n s) (nextPrefix_at stps i) then Inr (ms[i := us])
        else apply_loop stps (i + 1) (ms[i := us])
               (drop (length (nextPrefix_at stps i)) (drop n s)))
     else Inl IndexOutOfRange)"
  using assms by (subst apply_loop.simps) (simp add: nextPrefix_at_def Let_def)

lemma apply_loop_unquoted:
  assumes "i < length stps" and "tryUnquoteString s = (us, n, False)"
  shows "apply_loop stps i ms s =
    (if nextPrefix_at stps i = [] then
       (if i < length ms then Inr (ms[i := s]) else Inl IndexOutOfRange)
     else (case Index s (nextPrefix_at stps i) of
             None \<Rightarrow> Inr ms
           | Some k \<Rightarrow>
               if i < length ms
               then apply_loop stps (i + 1) (ms[i := take k s])
                      (drop (k + length (nextPrefix_at stps i)) s)
               else Inl IndexOutOfRange))"
  using assms
  by (subst apply_loop.simps) (simp add: nextPrefix_at_def Let_def split: option.split)

lemma tryUnquoteString_cases:
  obtains (quoted) us n where "tryUnquoteString s = (us, n, True)"
  | (unquoted) us n where "tryUnquoteString s = (us, n, False)"
  by (metis (full_types) prod_cases3)

lemma apply_loop_length:
  "apply_loop stps i ms s = Inr ms' \<Longrightarrow> length ms' = length ms"
proof (induction "length stps - i" arbitrary: i ms s)
  case 0
  then show ?case by (simp add: apply_loop_done)
next
  case (Suc d)
  then have i: "i < length stps" and d: "d = length stps - (i + 1)" by simp_all
  show ?case
  proof (cases s rule: tryUnquoteString_cases)
    case (quoted us n)
    with Suc.prems i Suc.hyps(1) [OF d] show ?thesis
      by (auto simp: apply_loop_quoted split: if_splits)
  next
    case (unquoted us n)
    with Suc.prems i Suc.hyps(1) [OF d] show ?thesis
      by (auto simp: apply_loop_unquoted split: if_splits option.splits)
  qed
qed


lemma apply_loop_total:
  "length stps \<le> length ms \<Longrightarrow> \<exists>ms'. apply_loop stps i ms s = Inr ms'"
proof (induction "length stps - i" arbitrary: i ms s)
  case 0
  then show ?case by (simp add: apply_loop_done)
next
  case (Suc d)
  then have i: "i < length stps" and d: "d = length stps - (i + 1)" by simp_all
  have IH: "\<And>m t. length stps \<le> length m \<Longrightarrow> \<exists>ms'. apply_loop stps (i + 1) m t = Inr ms'"
    using Suc.hyps(1) [OF d] by simp
  show ?case
  proof (cases s rule: tryUnquoteString_cases)
    case (quoted us n)
    with Suc.prems i IH show ?thesis
      by (simp add: apply_loop_quoted)
  next
    case (unquoted us n)
    with Suc.prems i IH show ?thesis
      by (simp add: apply_loop_unquoted split: option.splits)
  qed
qed

section \<open>The matcher as a whole\<close>

lemma newExtractFormat_Inr:
  assumes "newExtractFormat stps = Inr ef"
  shows "steps ef = stps" and "matches ef = replicate (length stps) []"
    and "stps \<noteq> []" and "ef_fields ef \<noteq> []"
  using assms by (auto simp: newExtractFormat_def Let_def split: if_splits)

lemma apply_Inr_parts:
  assumes "extractFormat_apply ef s = Inr ef1"
  shows "steps ef1 = steps ef" and "ef_fields ef1 = ef_fields ef"
    and "length (matches ef1) = length (matches ef)"
proof -
  have "steps ef1 = steps ef \<and> ef_fields ef1 = ef_fields ef
        \<and> length (matches ef1) = length (matches ef)"
  proof (cases "steps ef")
    case Nil
    with assms show ?thesis by (simp add: extractFormat_apply_def)
  next
    case (Cons step0 rest)
    show ?thesis
    proof (cases "prefix step0 \<noteq> [] \<and> Index s (prefix step0) = None")
      case True
      with assms Cons show ?thesis by (auto simp: extractFormat_apply_def)
    next
      case False
      then obtain t ms1 where "apply_loop (steps ef) 0 (map (\<lambda>m. []) (matches ef)) t = Inr ms1"
        and "ef1 = ef\<lparr>matches := ms1\<rparr>"
        using assms Cons
        by (auto simp: extractFormat_apply_def Let_def map_sum_def
                 split: if_splits option.splits sum.splits)
      then show ?thesis using apply_loop_length by fastforce
    qed
  qed
  then show "steps ef1 = steps ef" and "ef_fields ef1 = ef_fields ef"
    and "length (matches ef1) = length (matches ef)" by simp_all
qed

lemma apply_depends_on_length:
  assumes "steps ef' = steps ef" and "ef_fields ef' = ef_fields ef"
    and "length (matches ef') = length (matches ef)"
  shows "extractFormat_apply ef' s = extractFormat_apply ef s"
proof -
  have m: "map (\<lambda>m. []) (matches ef') = map (\<lambda>m. []) (matches ef)"
    using assms(3) by (simp add: map_replicate_const)
  have r: "\<And>x. ef'\<lparr>matches := x\<rparr> = ef\<lparr>matches := x\<rparr>"
    using assms by (cases ef, cases ef') simp
  show ?thesis
    unfolding extractFormat_apply_def Let_def m r assms(1) ..
qed

lemma apply_total:
  assumes "length (steps ef) \<le> length (matches ef)" and "steps ef \<noteq> []"
  shows "\<exists>ef1. extractFormat_apply ef s = Inr ef1"
proof -
  obtain step0 rest where c: "steps ef = step0 # rest"
    using assms(2) by (cases "steps ef") auto
  have "\<And>t. \<exists>ms1. apply_loop (steps ef) 0 (map (\<lambda>m. []) (matches ef)) t = Inr ms1"
    using assms(1) by (intro apply_loop_total) simp
  then have l: "\<And>t. \<exists>ef1. map_sum id (\<lambda>ms1. ef\<lparr>matches := ms1\<rparr>)
       (apply_loop (steps ef) 0 (map (\<lambda>m. []) (matches ef)) t) = Inr ef1"
    by (metis map_sum.simps(2))
  show ?thesis
    using l by (simp add: extractFormat_apply_def c Let_def split: option.split)
qed

section \<open>Facts about quoted spans and about the failing step\<close>



lemmas quote_eval = tryUnquoteString_def QuotedPrefix_def Unquote_def unquote_def ValidString.simps
  unquote_loop.simps UnquoteChar_def RuneError_def
  dquote_def backtick_def backslash_def newline_def squote_def carriage_return_def Let_def
lemmas apply_eval = extractFormat_apply_def apply_loop.simps HasPrefix_def fieldValues_def
  newExtractFormat_def failing_step_def failing_loop.simps







lemma apply_as_loop:
  assumes "steps ef = step0 # rest"
  shows "extractFormat_apply ef s =
    (if prefix step0 \<noteq> [] \<and> Index s (prefix step0) = None
     then Inr (ef\<lparr>matches := map (\<lambda>m. []) (matches ef)\<rparr>)
     else map_sum id (\<lambda>ms1. ef\<lparr>matches := ms1\<rparr>)
            (apply_loop (steps ef) 0 (map (\<lambda>m. []) (matches ef))
               (if prefix step0 \<noteq> [] then drop (the (Index s (prefix step0)) + length (prefix step0)) s
                else s)))"
  using assms by (auto simp: extractFormat_apply_def Let_def split: option.splits)


section \<open>Facts about the parser and the processor\<close>

lemma parse_loop_None:
  "IndexByte s CHR ''>'' = None \<Longrightarrow> parse_loop pfx s stps named = Inl (MissingClose s)"
  by (subst parse_loop.simps) simp

lemma parse_loop_Some:
  assumes "IndexByte s CHR ''>'' = Some n"
  shows "parse_loop pfx s stps named =
    (if drop (n + 1) s = []
     then Inr (stps @ [\<lparr>prefix = pfx, field = capture_name (take n s)\<rparr>],
               named \<or> capture_name (take n s) \<noteq> [])
     else (case IndexByte (drop (n + 1) s) CHR ''<'' of
             None \<Rightarrow>
               Inr (stps @ [\<lparr>prefix = pfx, field = capture_name (take n s)\<rparr>,
                            \<lparr>prefix = drop (n + 1) s, field = []\<rparr>],
                    named \<or> capture_name (take n s) \<noteq> [])
           | Some m \<Rightarrow>
               if m = 0 then Inl (MissingDelimiter (capture_name (take n s)))
               else parse_loop (take m (drop (n + 1) s)) (drop (m + 1) (drop (n + 1) s))
                      (stps @ [\<lparr>prefix = pfx, field = capture_name (take n s)\<rparr>])
                      (named \<or> capture_name (take n s) \<noteq> [])))"
  by (subst parse_loop.simps)
     (simp add: assms Let_def capture_name_def split: option.split)

lemma parse_loop_named:
  assumes "parse_loop pfx s steps0 named = Inr (steps1, named1)"
    and "named \<longrightarrow> (\<exists>st \<in> set steps0. field st \<noteq> [])"
  shows "steps1 \<noteq> [] \<and> (named1 \<longrightarrow> (\<exists>st \<in> set steps1. field st \<noteq> []))"
  using assms
proof (induction "length s" arbitrary: pfx s steps0 named rule: less_induct)
  case less
  from less.prems(1) obtain n where n: "IndexByte s CHR ''>'' = Some n"
    by (cases "IndexByte s CHR ''>''") (auto simp: parse_loop_None)
  let ?steps' = "steps0 @ [\<lparr>prefix = pfx, field = capture_name (take n s)\<rparr>]"
  let ?named' = "named \<or> capture_name (take n s) \<noteq> []"
  have inv: "?named' \<longrightarrow> (\<exists>st \<in> set ?steps'. field st \<noteq> [])"
    using less.prems(2) by auto
  note unfold = parse_loop_Some [OF n, of pfx steps0 named]
  show ?case
  proof (cases "drop (n + 1) s = []")
    case True
    with unfold less.prems(1) inv show ?thesis by auto
  next
    case ne: False
    show ?thesis
    proof (cases "IndexByte (drop (n + 1) s) CHR ''<''")
      case None
      with ne unfold less.prems(1) inv show ?thesis by auto
    next
      case (Some m)
      with ne unfold less.prems(1) have
        rec: "parse_loop (take m (drop (n + 1) s)) (drop (m + 1) (drop (n + 1) s)) ?steps' ?named'
                = Inr (steps1, named1)"
        by (auto split: if_splits)
      have "length (drop (m + 1) (drop (n + 1) s)) < length s"
        using ne by simp
      from less.hyps [OF this rec inv] show ?thesis .
    qed
  qed
qed

lemma newExtractFormat_ok:
  assumes "stps \<noteq> []" and "\<exists>st \<in> set stps. field st \<noteq> []"
  shows "\<exists>ef. newExtractFormat stps = Inr ef"
proof -
  from assms(2) obtain st where st: "st \<in> set stps" "field st \<noteq> []" by blast
  then obtain i where "i < length stps" "stps ! i = st" by (auto simp: in_set_conv_nth)
  then have "(i, st) \<in> set (enumerate 0 stps)" by (simp add: in_set_enumerate_eq)
  with st(2) have "filter (\<lambda>(i, step). field step \<noteq> []) (enumerate 0 stps) \<noteq> []"
    by (auto simp: filter_empty_conv)
  with assms(1) show ?thesis by (simp add: newExtractFormat_def Let_def)
qed

lemma writeBlock_ppBase:
  "writeBlock pep workerID br = Inr pep' \<Longrightarrow> ppBase pep' = ppBase pep"
  by (auto simp: writeBlock_def Let_def split: if_splits sum.splits)

lemma make_shards_replicate:
  assumes "newExtractFormat stps = Inr ef0"
  shows "make_shards n stps = Inr (replicate n ef0)"
  by (induction n) (simp_all add: assms)

lemma apply_each_fresh:
  assumes "newExtractFormat stps = Inr ef0"
    and "steps ef = stps" and "ef_fields ef = ef_fields ef0" and "length (matches ef) = length stps"
  shows "apply_each ef rows = Inr (map (\<lambda>s. projr (extractFormat_apply ef0 s)) rows)"
  using assms(2-4)
proof (induction rows arbitrary: ef)
  case Nil
  show ?case by simp
next
  case (Cons v vs)
  note new = newExtractFormat_Inr [OF assms(1)]
  have same: "extractFormat_apply ef v = extractFormat_apply ef0 v"
    using Cons.prems new by (intro apply_depends_on_length) simp_all
  obtain ef1 where ef1: "extractFormat_apply ef0 v = Inr ef1"
    using apply_total [of ef0 v] new by auto
  note parts = apply_Inr_parts [OF ef1]
  have "apply_each ef1 vs = Inr (map (\<lambda>s. projr (extractFormat_apply ef0 s)) vs)"
    using parts new by (intro Cons.IH) simp_all
  with same ef1 show ?case by simp
qed

lemma rows_of_shard_map:
  "rows_of_shard k ws (map f xs) = map f (rows_of_shard k ws xs)"
proof (induction ws arbitrary: xs)
  case Nil
  show ?case by (simp add: rows_of_shard_def)
next
  case (Cons w ws)
  then show ?case by (cases xs) (auto simp: rows_of_shard_def)
qed

lemma remove_step_fields_eq:
  "remove_step_fields stps u = u - {field st | st. st \<in> set stps \<and> field st \<noteq> []}"
  by (induction stps arbitrary: u) (auto simp: remove_def)

section \<open>The parser against the words of its error cases\<close>

lemma IndexByte_None_iff: "IndexByte s c = None \<longleftrightarrow> c \<notin> set s"
  by (induction s) auto

lemma IndexByte_Some_split:
  "IndexByte s c = Some n \<Longrightarrow> s = take n s @ c # drop (n + 1) s \<and> c \<notin> set (take n s)"
proof (induction s arbitrary: n)
  case Nil
  then show ?case by simp
next
  case (Cons x xs)
  show ?case
  proof (cases "x = c")
    case True
    with Cons.prems show ?thesis by simp
  next
    case False
    with Cons.prems obtain k where k: "IndexByte xs c = Some k" "n = Suc k" by auto
    from Cons.IH [OF k(1)] False k(2) show ?thesis by auto
  qed
qed

lemma IndexByte_append: "c \<notin> set p \<Longrightarrow> IndexByte (p @ c # r) c = Some (length p)"
  by (induction p) auto

lemma split_unique:
  assumes "p @ c # r = p' @ c # (r' :: string)" and "c \<notin> set p" and "c \<notin> set p'"
  shows "p = p' \<and> r = r'"
proof -
  have "IndexByte (p @ c # r) c = Some (length p)" "IndexByte (p' @ c # r') c = Some (length p')"
    using assms(2,3) by (simp_all add: IndexByte_append)
  with assms(1) have "length p = length p'" by simp
  with assms(1) show ?thesis by simp
qed

lemma chain_unfold:
  "rtranclp next_capture r r' \<longleftrightarrow> r' = r \<or> (\<exists>r1. next_capture r r1 \<and> rtranclp next_capture r1 r')"
  by (metis converse_rtranclpE converse_rtranclp_into_rtranclp rtranclp.rtrancl_refl)

lemma next_capture_iff:
  assumes "r = f @ CHR ''>'' # s1" and "CHR ''>'' \<notin> set f"
  shows "next_capture r r1 \<longleftrightarrow> (\<exists>d. s1 = d @ CHR ''<'' # r1 \<and> CHR ''<'' \<notin> set d)"
proof
  assume "next_capture r r1"
  then obtain f' d where e: "r = f' @ CHR ''>'' # d @ CHR ''<'' # r1"
    and f': "CHR ''>'' \<notin> set f'" and d: "CHR ''<'' \<notin> set d"
    by (auto simp: next_capture_def)
  from e assms(1) have "f @ CHR ''>'' # s1 = f' @ CHR ''>'' # (d @ CHR ''<'' # r1)" by simp
  from split_unique [OF this assms(2) f'] d
  show "\<exists>d. s1 = d @ CHR ''<'' # r1 \<and> CHR ''<'' \<notin> set d" by auto
next
  assume "\<exists>d. s1 = d @ CHR ''<'' # r1 \<and> CHR ''<'' \<notin> set d"
  with assms show "next_capture r r1" by (auto simp: next_capture_def)
qed

lemma head_facts:
  assumes "r = f @ CHR ''>'' # s1" and "CHR ''>'' \<notin> set f"
  shows "CHR ''>'' \<in> set r"
    and "(\<exists>f' t. r = f' @ CHR ''>'' # CHR ''<'' # t \<and> CHR ''>'' \<notin> set f')
           \<longleftrightarrow> (\<exists>t. s1 = CHR ''<'' # t)"
    and "(\<exists>f' t. r = f' @ CHR ''>'' # t \<and> CHR ''>'' \<notin> set f' \<and> f' \<noteq> [] \<and> f' \<noteq> ''_'' \<and> f' \<noteq> ''*'')
           \<longleftrightarrow> capture_name f \<noteq> []"
proof -
  show "CHR ''>'' \<in> set r" using assms(1) by simp
  have u: "\<And>f' t. r = f' @ CHR ''>'' # t \<Longrightarrow> CHR ''>'' \<notin> set f' \<Longrightarrow> f' = f \<and> t = s1"
    using assms split_unique by metis
  show "(\<exists>f' t. r = f' @ CHR ''>'' # CHR ''<'' # t \<and> CHR ''>'' \<notin> set f')
           \<longleftrightarrow> (\<exists>t. s1 = CHR ''<'' # t)"
    using u assms by blast
  show "(\<exists>f' t. r = f' @ CHR ''>'' # t \<and> CHR ''>'' \<notin> set f' \<and> f' \<noteq> [] \<and> f' \<noteq> ''_'' \<and> f' \<noteq> ''*'')
           \<longleftrightarrow> capture_name f \<noteq> []"
  proof
    assume "\<exists>f' t. r = f' @ CHR ''>'' # t \<and> CHR ''>'' \<notin> set f' \<and> f' \<noteq> [] \<and> f' \<noteq> ''_'' \<and> f' \<noteq> ''*''"
    then obtain f' t where "r = f' @ CHR ''>'' # t" "CHR ''>'' \<notin> set f'"
      "f' \<noteq> []" "f' \<noteq> ''_''" "f' \<noteq> ''*''" by blast
    with u [of f' t] show "capture_name f \<noteq> []" by (simp add: capture_name_def)
  next
    assume "capture_name f \<noteq> []"
    then have "f \<noteq> []" "f \<noteq> ''_''" "f \<noteq> ''*''"
      by (auto simp: capture_name_def split: if_splits)
    with assms show "\<exists>f' t. r = f' @ CHR ''>'' # t \<and> CHR ''>'' \<notin> set f' \<and> f' \<noteq> [] \<and> f' \<noteq> ''_'' \<and> f' \<noteq> ''*''"
      by blast
  qed
qed

text \<open>A capture that is the last one: no further capture opens after it.\<close>

lemma last_capture:
  assumes "r = f @ CHR ''>'' # s1" and "CHR ''>'' \<notin> set f" and "CHR ''<'' \<notin> set s1"
  shows "\<not> unterminated_from r" and "\<not> zero_delimiter_from r" and "named_capture_from r \<longleftrightarrow> capture_name f \<noteq> []"
proof -
  have no: "\<And>r1. \<not> next_capture r r1"
    using assms(3) by (auto simp: next_capture_iff [OF assms(1,2)])
  then have only: "\<And>r'. rtranclp next_capture r r' \<longleftrightarrow> r' = r"
    by (subst chain_unfold) simp
  show "\<not> unterminated_from r" by (simp add: unterminated_from_def only head_facts(1) [OF assms(1,2)])
  have "\<not> (\<exists>t. s1 = CHR ''<'' # t)" using assms(3) by auto
  then show "\<not> zero_delimiter_from r"
    using head_facts(2) [OF assms(1,2)] by (simp add: zero_delimiter_from_def only)
  show "named_capture_from r \<longleftrightarrow> capture_name f \<noteq> []"
    using head_facts(3) [OF assms(1,2)] by (simp add: named_capture_from_def only)
qed

lemma inner_capture:
  assumes "r = f @ CHR ''>'' # d @ CHR ''<'' # r1" and "CHR ''>'' \<notin> set f"
    and "CHR ''<'' \<notin> set d" and "d \<noteq> []"
  shows "unterminated_from r \<longleftrightarrow> unterminated_from r1" and "zero_delimiter_from r \<longleftrightarrow> zero_delimiter_from r1"
    and "named_capture_from r \<longleftrightarrow> capture_name f \<noteq> [] \<or> named_capture_from r1"
proof -
  have a1: "r = f @ CHR ''>'' # (d @ CHR ''<'' # r1)" using assms(1) by simp
  have nx: "\<And>x. next_capture r x \<longleftrightarrow> x = r1"
  proof -
    fix x
    have "(\<exists>d'. d @ CHR ''<'' # r1 = d' @ CHR ''<'' # x \<and> CHR ''<'' \<notin> set d') \<longleftrightarrow> x = r1"
      using split_unique [of d "CHR ''<''" r1 _ x] assms(3) by blast
    then show "next_capture r x \<longleftrightarrow> x = r1"
      by (simp add: next_capture_iff [OF a1 assms(2)])
  qed
  have ch: "\<And>r'. rtranclp next_capture r r' \<longleftrightarrow> r' = r \<or> rtranclp next_capture r1 r'"
    by (subst chain_unfold) (simp add: nx)
  have hz: "\<not> (\<exists>t. d @ CHR ''<'' # r1 = CHR ''<'' # t)"
    using assms(3,4) by (cases d) auto
  show "unterminated_from r \<longleftrightarrow> unterminated_from r1"
    using head_facts(1) [OF a1 assms(2)] by (auto simp: unterminated_from_def ch)
  show "zero_delimiter_from r \<longleftrightarrow> zero_delimiter_from r1"
    using head_facts(2) [OF a1 assms(2)] hz unfolding zero_delimiter_from_def ch by blast
  show "named_capture_from r \<longleftrightarrow> capture_name f \<noteq> [] \<or> named_capture_from r1"
    using head_facts(3) [OF a1 assms(2)] unfolding named_capture_from_def ch by blast
qed


lemma parse_loop_spec:
  "case parse_loop pfx r stps named of
     Inl e \<Rightarrow> unterminated_from r \<or> zero_delimiter_from r
   | Inr (steps1, named1) \<Rightarrow>
       \<not> unterminated_from r \<and> \<not> zero_delimiter_from r \<and> (named1 \<longleftrightarrow> named \<or> named_capture_from r)"
proof (induction "length r" arbitrary: pfx r stps named rule: less_induct)
  case less
  show ?case
  proof (cases "IndexByte r CHR ''>''")
    case None
    then have "unterminated_from r"
      unfolding unterminated_from_def using IndexByte_None_iff by blast
    with None show ?thesis by (simp add: parse_loop_None)
  next
    case (Some n)
    define f where "f = take n r"
    define s1 where "s1 = drop (n + 1) r"
    from IndexByte_Some_split [OF Some] have r: "r = f @ CHR ''>'' # s1" and f: "CHR ''>'' \<notin> set f"
      by (simp_all add: f_def s1_def)
    note unfold = parse_loop_Some [OF Some, of pfx stps named, folded f_def s1_def]
    show ?thesis
    proof (cases "IndexByte s1 CHR ''<''")
      case None
      then have "CHR ''<'' \<notin> set s1" by (simp add: IndexByte_None_iff)
      from last_capture [OF r f this] None show ?thesis
        by (simp add: unfold)
    next
      case m: (Some m)
      then have ne: "s1 \<noteq> []" by auto
      define d where "d = take m s1"
      define r1 where "r1 = drop (m + 1) s1"
      from IndexByte_Some_split [OF m] have s1: "s1 = d @ CHR ''<'' # r1" and d: "CHR ''<'' \<notin> set d"
        by (simp_all add: d_def r1_def)
      show ?thesis
      proof (cases "m = 0")
        case True
        then have "s1 = CHR ''<'' # r1" using s1 by (simp add: d_def)
        with r f have "zero_delimiter_from r" unfolding zero_delimiter_from_def by blast
        with True m ne show ?thesis by (simp add: unfold)
      next
        case False
        with ne have dne: "d \<noteq> []" by (simp add: d_def)
        have r': "r = f @ CHR ''>'' # d @ CHR ''<'' # r1" using r s1 by simp
        note inner = inner_capture [OF r' f d dne]
        have "length r1 < length r" using r' by simp
        note IH = less.hyps [OF this,
            where pfx = d and stps = "stps @ [\<lparr>prefix = pfx, field = capture_name f\<rparr>]"
              and named = "named \<or> capture_name f \<noteq> []"]
        have u: "parse_loop pfx r stps named =
            parse_loop d r1 (stps @ [\<lparr>prefix = pfx, field = capture_name f\<rparr>])
              (named \<or> capture_name f \<noteq> [])"
          using False m ne by (simp add: unfold d_def r1_def)
        show ?thesis
          using IH unfolding u inner by (auto split: sum.splits)
      qed
    qed
  qed
qed

lemma capture_opens_iff:
  assumes "s = p @ CHR ''<'' # r0" and "CHR ''<'' \<notin> set p"
  shows "capture_opens s r \<longleftrightarrow> rtranclp next_capture r0 r"
proof
  assume "capture_opens s r"
  then obtain p' r0' where "s = p' @ CHR ''<'' # r0'" "CHR ''<'' \<notin> set p'"
    "rtranclp next_capture r0' r"
    by (auto simp: capture_opens_def)
  with split_unique [of p "CHR ''<''" r0 p' r0'] assms show "rtranclp next_capture r0 r"
    by auto
next
  assume "rtranclp next_capture r0 r"
  with assms show "capture_opens s r" by (auto simp: capture_opens_def)
qed

lemma pattern_text_Nil: "pattern_text [] t = t"
  by (simp add: pattern_text_def)

lemma pattern_text_Cons:
  "pattern_text (c # caps) t = fst c @ CHR ''<'' # snd c @ CHR ''>'' # pattern_text caps t"
  by (simp add: pattern_text_def capture_segment_def)

lemma raw_steps_Cons:
  "raw_steps (c # caps) t = \<lparr>prefix = fst c, field = capture_name (snd c)\<rparr> # raw_steps caps t"
  by (simp add: raw_steps_def)

lemma parse_loop_pattern:
  assumes "CHR ''>'' \<notin> set f" and "later_captures_ok caps t"
  shows "parse_loop pfx (f @ CHR ''>'' # pattern_text caps t) stps named
     = Inr (stps @ \<lparr>prefix = pfx, field = capture_name f\<rparr> # raw_steps caps t,
            named \<or> capture_name f \<noteq> [] \<or> (\<exists>c \<in> set caps. capture_name (snd c) \<noteq> []))"
  using assms
proof (induction caps arbitrary: pfx f stps named)
  case Nil
  have ix: "IndexByte (f @ CHR ''>'' # t) CHR ''>'' = Some (length f)"
    using Nil.prems(1) by (rule IndexByte_append)
  have t: "IndexByte t CHR ''<'' = None"
    using Nil.prems(2) by (simp add: later_captures_ok_def IndexByte_None_iff)
  show ?case
    by (simp add: pattern_text_Nil parse_loop_Some [OF ix] t raw_steps_def)
next
  case (Cons c caps)
  let ?s1 = "pattern_text (c # caps) t"
  have ix: "IndexByte (f @ CHR ''>'' # ?s1) CHR ''>'' = Some (length f)"
    using Cons.prems(1) by (rule IndexByte_append)
  from Cons.prems(2) have c: "fst c \<noteq> []" "CHR ''<'' \<notin> set (fst c)" "CHR ''>'' \<notin> set (snd c)"
    and rest: "later_captures_ok caps t"
    by (simp_all add: later_captures_ok_def)
  have s1: "?s1 = fst c @ CHR ''<'' # (snd c @ CHR ''>'' # pattern_text caps t)"
    by (simp add: pattern_text_Cons)
  have ne: "?s1 \<noteq> []" using c(1) by (simp add: pattern_text_Cons)
  have lt: "IndexByte ?s1 CHR ''<'' = Some (length (fst c))"
    unfolding s1 using c(2) by (rule IndexByte_append)
  have m: "length (fst c) \<noteq> 0" using c(1) by simp
  have tk: "take (length (fst c)) ?s1 = fst c"
    and dr: "drop (Suc (length (fst c))) ?s1 = snd c @ CHR ''>'' # pattern_text caps t"
    by (simp_all add: s1)
  have "parse_loop pfx (f @ CHR ''>'' # ?s1) stps named
      = parse_loop (fst c) (snd c @ CHR ''>'' # pattern_text caps t)
          (stps @ [\<lparr>prefix = pfx, field = capture_name f\<rparr>]) (named \<or> capture_name f \<noteq> [])"
    using ne m by (simp add: parse_loop_Some [OF ix] lt tk dr)
  also have "\<dots> = Inr ((stps @ [\<lparr>prefix = pfx, field = capture_name f\<rparr>])
                       @ \<lparr>prefix = fst c, field = capture_name (snd c)\<rparr> # raw_steps caps t,
                     (named \<or> capture_name f \<noteq> []) \<or> capture_name (snd c) \<noteq> []
                       \<or> (\<exists>c \<in> set caps. capture_name (snd c) \<noteq> []))"
    by (rule Cons.IH [OF c(3) rest])
  finally show ?case by (auto simp: raw_steps_Cons)
qed

lemma parse_of_pattern:
  assumes "well_formed_pattern caps t"
  shows "parseExtractFormatSteps unescapeEntities (pattern_text caps t)
           = Inr (steps_of_pattern unescapeEntities caps t)"
proof -
  from assms obtain c rest where caps: "caps = c # rest"
    and c: "CHR ''<'' \<notin> set (fst c)" "CHR ''>'' \<notin> set (snd c)"
    and ok: "later_captures_ok rest t"
    and nm: "\<exists>c \<in> set caps. capture_name (snd c) \<noteq> []"
    by (auto simp: well_formed_pattern_def split: list.splits)
  let ?s = "pattern_text caps t"
  have s: "?s = fst c @ CHR ''<'' # (snd c @ CHR ''>'' # pattern_text rest t)"
    by (simp add: caps pattern_text_Cons)
  have lt: "IndexByte ?s CHR ''<'' = Some (length (fst c))"
    unfolding s using c(1) by (rule IndexByte_append)
  have tk: "take (length (fst c)) ?s = fst c"
    and dr: "drop (length (fst c) + 1) ?s = snd c @ CHR ''>'' # pattern_text rest t"
    by (simp_all add: s)
  have nm': "capture_name (snd c) \<noteq> [] \<or> (\<exists>c \<in> set rest. capture_name (snd c) \<noteq> [])"
    using nm caps by simp
  show ?thesis
    unfolding parseExtractFormatSteps_def lt option.case tk dr
      parse_loop_pattern [OF c(2) ok]
    using nm' by (simp add: steps_of_pattern_def caps raw_steps_Cons)
qed

lemma parse_loop_decompose:
  assumes "parse_loop pfx r stps named = Inr (steps1, named1)"
  shows "\<exists>f caps t. r = f @ CHR ''>'' # pattern_text caps t \<and> CHR ''>'' \<notin> set f
           \<and> later_captures_ok caps t
           \<and> steps1 = stps @ \<lparr>prefix = pfx, field = capture_name f\<rparr> # raw_steps caps t"
  using assms
proof (induction "length r" arbitrary: pfx r stps named rule: less_induct)
  case less
  from less.prems obtain n where n: "IndexByte r CHR ''>'' = Some n"
    by (cases "IndexByte r CHR ''>''") (auto simp: parse_loop_None)
  define f where "f = take n r"
  define s1 where "s1 = drop (n + 1) r"
  from IndexByte_Some_split [OF n] have r: "r = f @ CHR ''>'' # s1" and f: "CHR ''>'' \<notin> set f"
    by (simp_all add: f_def s1_def)
  note unfold = parse_loop_Some [OF n, of pfx stps named, folded f_def s1_def]
  show ?case
  proof (cases "IndexByte s1 CHR ''<''")
    case None
    then have nlt: "CHR ''<'' \<notin> set s1" by (simp add: IndexByte_None_iff)
    from less.prems None have "steps1 = stps @ \<lparr>prefix = pfx, field = capture_name f\<rparr> # raw_steps [] s1"
      by (auto simp: unfold raw_steps_def split: if_splits)
    with r f nlt show ?thesis
      by (intro exI [of _ f] exI [of _ "[]"] exI [of _ s1])
         (simp add: pattern_text_Nil later_captures_ok_def)
  next
    case (Some m)
    then have ne: "s1 \<noteq> []" by auto
    define d where "d = take m s1"
    define r1 where "r1 = drop (m + 1) s1"
    from IndexByte_Some_split [OF Some] have s1: "s1 = d @ CHR ''<'' # r1" and d: "CHR ''<'' \<notin> set d"
      by (simp_all add: d_def r1_def)
    from less.prems Some ne have m0: "m \<noteq> 0"
      and rec: "parse_loop d r1 (stps @ [\<lparr>prefix = pfx, field = capture_name f\<rparr>])
                  (named \<or> capture_name f \<noteq> []) = Inr (steps1, named1)"
      by (auto simp: unfold d_def r1_def split: if_splits)
    from m0 ne have dne: "d \<noteq> []" by (simp add: d_def)
    have "length r1 < length r" using r s1 by simp
    from less.hyps [OF this rec] obtain f2 caps t where
      r1: "r1 = f2 @ CHR ''>'' # pattern_text caps t" and f2: "CHR ''>'' \<notin> set f2"
      and ok: "later_captures_ok caps t"
      and st: "steps1 = (stps @ [\<lparr>prefix = pfx, field = capture_name f\<rparr>])
                  @ \<lparr>prefix = d, field = capture_name f2\<rparr> # raw_steps caps t"
      by blast
    have "r = f @ CHR ''>'' # pattern_text ((d, f2) # caps) t"
      using r s1 r1 by (simp add: pattern_text_Cons)
    moreover have "later_captures_ok ((d, f2) # caps) t"
      using ok dne d f2 by (simp add: later_captures_ok_def)
    moreover have "steps1 = stps @ \<lparr>prefix = pfx, field = capture_name f\<rparr> # raw_steps ((d, f2) # caps) t"
      using st by (simp add: raw_steps_Cons)
    ultimately show ?thesis using f by blast
  qed
qed

lemma parse_decompose:
  assumes "parseExtractFormatSteps unescapeEntities s = Inr stps"
  shows "\<exists>caps t. well_formed_pattern caps t \<and> s = pattern_text caps t
           \<and> stps = steps_of_pattern unescapeEntities caps t"
proof -
  from assms obtain n steps1 where n: "IndexByte s CHR ''<'' = Some n"
    and l: "parse_loop (take n s) (drop (n + 1) s) [] False = Inr (steps1, True)"
    and m: "stps = map (\<lambda>step. step\<lparr>prefix := UnescapeString unescapeEntities (prefix step)\<rparr>) steps1"
    by (auto simp: parseExtractFormatSteps_def split: option.splits sum.splits if_splits)
  from IndexByte_Some_split [OF n] have s: "s = take n s @ CHR ''<'' # drop (n + 1) s"
    and p: "CHR ''<'' \<notin> set (take n s)" by simp_all
  from parse_loop_decompose [OF l] obtain f caps t where
    r: "drop (n + 1) s = f @ CHR ''>'' # pattern_text caps t" and f: "CHR ''>'' \<notin> set f"
    and ok: "later_captures_ok caps t"
    and st: "steps1 = [] @ \<lparr>prefix = take n s, field = capture_name f\<rparr> # raw_steps caps t"
    by blast
  let ?caps = "(take n s, f) # caps"
  have tx: "s = pattern_text ?caps t"
    using s r by (simp add: pattern_text_Cons)
  have steps: "stps = steps_of_pattern unescapeEntities ?caps t"
    using m st by (simp add: steps_of_pattern_def raw_steps_Cons)
  have "\<exists>st \<in> set steps1. field st \<noteq> []"
    using parse_loop_named [OF l] by simp
  then have nm: "\<exists>c \<in> set ?caps. capture_name (snd c) \<noteq> []"
    unfolding st by (auto simp: raw_steps_def split: if_splits)
  have "well_formed_pattern ?caps t"
    using p f ok nm by (simp add: well_formed_pattern_def)
  with tx steps show ?thesis by blast
qed

section \<open>Facts for the round trip\<close>

lemma HasPrefix_append: "HasPrefix (p @ rest) p"
  by (simp add: HasPrefix_def)

lemma HasPrefix_longer:
  "length p \<le> length a \<Longrightarrow> HasPrefix (a @ rest) p \<longleftrightarrow> HasPrefix a p"
  by (simp add: HasPrefix_def)

lemma Index_HasPrefix: "HasPrefix s p \<Longrightarrow> Index s p = Some 0"
  by (cases s) (auto simp: HasPrefix_def)

lemma Index_prefix_0: "Index (p @ rest) p = Some 0"
  by (rule Index_HasPrefix) (rule HasPrefix_append)

lemma Index_boundary:
  "Index (v @ p) p = Some (length v) \<Longrightarrow> Index (v @ p @ rest) p = Some (length v)"
proof (induction v)
  case Nil
  show ?case using Index_prefix_0 [of p rest] by simp
next
  case (Cons x v)
  have np: "\<not> HasPrefix ((x # v) @ p) p"
    using Cons.prems by (auto split: if_splits)
  then have "\<not> HasPrefix (((x # v) @ p) @ rest) p"
    by (subst HasPrefix_longer) simp_all
  moreover from Cons.prems np have "Index (v @ p) p = Some (length v)"
    by (auto split: if_splits)
  ultimately show ?case using Cons.IH by simp
qed


lemma roundtrip_ok_length: "roundtrip_ok sts vs \<Longrightarrow> length vs = length sts"
  by (induction sts vs rule: roundtrip_ok.induct) auto

lemma roundtrip_loop:
  assumes "roundtrip_ok (st # post) (v # vs)" and "stps = pre @ st # post"
    and "i = length pre" and "length ms = length stps"
  shows "apply_loop stps i ms (v @ render post vs) = Inr (take i ms @ v # vs)"
  using assms
proof (induction post arbitrary: st v vs pre i ms)
  case Nil
  then have vs: "vs = []" and nq: "\<not> quoted_at v"
    by (cases vs; simp)+
  obtain us n where t: "tryUnquoteString v = (us, n, False)"
    using nq by (cases v rule: tryUnquoteString_cases) (auto simp: quoted_at_def)
  have i: "i < length stps" "i < length ms" "nextPrefix_at stps i = []"
    using Nil.prems by (simp_all add: nextPrefix_at_def)
  have "ms[i := v] = take i ms @ [v]"
    using Nil.prems by (simp add: upd_conv_take_nth_drop)
  with i t vs show ?case by (simp add: apply_loop_unquoted)
next
  case (Cons st2 rest)
  from Cons.prems(1) obtain v2 vs2 where vs: "vs = v2 # vs2"
    by (cases vs) auto
  from Cons.prems(1) vs have p2: "prefix st2 \<noteq> []"
    and nq: "\<not> quoted_at (v @ render (st2 # rest) vs)"
    and ix: "Index (v @ prefix st2) (prefix st2) = Some (length v)"
    and ok: "roundtrip_ok (st2 # rest) (v2 # vs2)"
    by simp_all
  let ?s = "v @ render (st2 # rest) vs"
  have s: "?s = v @ prefix st2 @ (v2 @ render rest vs2)" by (simp add: vs)
  obtain us n where t: "tryUnquoteString ?s = (us, n, False)"
    using nq by (cases ?s rule: tryUnquoteString_cases) (auto simp: quoted_at_def)
  have i: "i < length stps" "i < length ms" "nextPrefix_at stps i = prefix st2"
    using Cons.prems by (simp_all add: nextPrefix_at_def nth_append)
  have ix': "Index ?s (prefix st2) = Some (length v)"
    unfolding s by (rule Index_boundary [OF ix])
  have step: "apply_loop stps i ms ?s =
      apply_loop stps (i + 1) (ms[i := v]) (v2 @ render rest vs2)"
    using i t p2 ix' by (simp add: apply_loop_unquoted s)
  have "apply_loop stps (i + 1) (ms[i := v]) (v2 @ render rest vs2)
      = Inr (take (i + 1) (ms[i := v]) @ v2 # vs2)"
    using Cons.prems by (intro Cons.IH [OF ok, where pre = "pre @ [st]"]) simp_all
  moreover have "take (i + 1) (ms[i := v]) = take i ms @ [v]"
    using i(2) by (simp add: take_Suc_conv_app_nth)
  ultimately show ?case using step vs by simp
qed


lemma enumerate_zip_values:
  "length vs = length xs \<Longrightarrow>
   map (\<lambda>(i, x). g x (vs ! (i - n))) (filter (\<lambda>(i, x). P x) (enumerate n xs))
     = map (\<lambda>(x, v). g x v) (filter (\<lambda>(x, v). P x) (zip xs vs))"
proof (induction xs arbitrary: vs n)
  case Nil
  then show ?case by simp
next
  case (Cons x xs)
  then obtain v vs' where vs: "vs = v # vs'" and len: "length vs' = length xs"
    by (cases vs) auto
  have "map (\<lambda>(i, x). g x (vs ! (i - n))) (filter (\<lambda>(i, x). P x) (enumerate (Suc n) xs))
      = map (\<lambda>(i, x). g x (vs' ! (i - Suc n))) (filter (\<lambda>(i, x). P x) (enumerate (Suc n) xs))"
  proof (rule map_cong [OF refl])
    fix a assume "a \<in> set (filter (\<lambda>(i, x). P x) (enumerate (Suc n) xs))"
    then have m: "a \<in> set (enumerate (Suc n) xs)" by simp
    obtain i y where a: "a = (i, y)" by (cases a)
    with m have "Suc n \<le> i" by (simp add: in_set_enumerate_eq)
    then have "vs ! (i - n) = vs' ! (i - Suc n)"
      by (simp add: vs Suc_diff_le)
    with a show "(case a of (i, x) \<Rightarrow> g x (vs ! (i - n))) = (case a of (i, x) \<Rightarrow> g x (vs' ! (i - Suc n)))"
      by simp
  qed
  with Cons.IH [OF len, of "Suc n"] show ?case by (simp add: vs)
qed

lemma fieldValues_new:
  assumes "newExtractFormat stps = Inr ef" and "length vals = length stps"
  shows "fieldValues (ef\<lparr>matches := vals\<rparr>)
     = map (\<lambda>(st, v). (field st, v)) (filter (\<lambda>(st, v). field st \<noteq> []) (zip stps vals))"
proof -
  from assms(1) have
    f: "ef_fields ef = map (\<lambda>(i, step). \<lparr>name = field step, value_ptr = i\<rparr>)
                         (filter (\<lambda>(i, step). field step \<noteq> []) (enumerate 0 stps))"
    by (auto simp: newExtractFormat_def Let_def split: if_splits)
  have "fieldValues (ef\<lparr>matches := vals\<rparr>)
      = map (\<lambda>(i, step). (field step, vals ! (i - 0)))
          (filter (\<lambda>(i, step). field step \<noteq> []) (enumerate 0 stps))"
    by (simp add: fieldValues_def f comp_def split_def)
  also have "\<dots> = map (\<lambda>(st, v). (field st, v)) (filter (\<lambda>(st, v). field st \<noteq> []) (zip stps vals))"
    by (rule enumerate_zip_values [OF assms(2)])
  finally show ?thesis .
qed

section \<open>Claims\<close>

text \<open>
  C5.  Every call of \<^verbatim>\<open>apply\<close> first clears the buffer \<^verbatim>\<open>matches\<close>: the call gives what
  it gives on the same matcher with every slot set to the empty string beforehand.
  Hence, for a matcher made by \<^verbatim>\<open>newExtractFormat\<close> and already applied to \<open>s1\<close>, a second
  call with \<open>s1\<close> leaves the captured values as they are, and a call with \<open>s2\<close> gives
  exactly what the fresh matcher gives on \<open>s2\<close> alone, which is a normal return: nothing of
  the earlier call is left.
\<close>

theorem apply_clears_buffer_no_leak:
  assumes "newExtractFormat stps = Inr ef0"
    and "extractFormat_apply ef0 s1 = Inr ef1"
  shows "extractFormat_apply ef1 s2
           = extractFormat_apply (ef1\<lparr>matches := map (\<lambda>m. []) (matches ef1)\<rparr>) s2
       \<and> extractFormat_apply ef1 s1 = Inr ef1
       \<and> extractFormat_apply ef1 s2 = extractFormat_apply ef0 s2
       \<and> (\<exists>ef2. extractFormat_apply ef0 s2 = Inr ef2)"
proof -
  note parts = apply_Inr_parts [OF assms(2)]
  have same: "\<And>s. extractFormat_apply ef1 s = extractFormat_apply ef0 s"
    using parts by (intro apply_depends_on_length) simp_all
  have cleared: "extractFormat_apply ef1 s2
      = extractFormat_apply (ef1\<lparr>matches := map (\<lambda>m. []) (matches ef1)\<rparr>) s2"
    by (rule sym, intro apply_depends_on_length) simp_all
  have total: "\<exists>ef2. extractFormat_apply ef0 s2 = Inr ef2"
    using newExtractFormat_Inr [OF assms(1)] by (intro apply_total) simp_all
  from cleared same assms(2) total show ?thesis by simp
qed

theorem apply_clears_buffer_no_leak_witness:
  "newExtractFormat steps_a_b
     = Inr \<lparr>steps = steps_a_b, matches = [[], []],
            ef_fields = [\<lparr>name = ''x'', value_ptr = 0\<rparr>, \<lparr>name = ''y'', value_ptr = 1\<rparr>]\<rparr>
   \<and> extractFormat_apply
         \<lparr>steps = steps_a_b, matches = [''1'', ''2''],
          ef_fields = [\<lparr>name = ''x'', value_ptr = 0\<rparr>, \<lparr>name = ''y'', value_ptr = 1\<rparr>]\<rparr> ''a=3''
     = Inr \<lparr>steps = steps_a_b, matches = [[], []],
            ef_fields = [\<lparr>name = ''x'', value_ptr = 0\<rparr>, \<lparr>name = ''y'', value_ptr = 1\<rparr>]\<rparr>"
proof -
  let ?F = "[\<lparr>name = ''x'', value_ptr = 0\<rparr>, \<lparr>name = ''y'', value_ptr = 1\<rparr>]"
  let ?E0 = "\<lparr>steps = steps_a_b, matches = [[], []], ef_fields = ?F\<rparr>"
  let ?E1 = "\<lparr>steps = steps_a_b, matches = [''1'', ''2''], ef_fields = ?F\<rparr>"
  have h1: "newExtractFormat steps_a_b = Inr ?E0" by code_simp
  have h2: "extractFormat_apply ?E0 ''a=1 b=2'' = Inr ?E1" by code_simp
  have h3: "extractFormat_apply ?E0 ''a=3'' = Inr ?E0" by code_simp
  from apply_clears_buffer_no_leak [OF h1 h2, of "''a=3''"] h1 h3 show ?thesis by simp
qed











text \<open>
  C8.  A step list that \<^verbatim>\<open>parseExtractFormatSteps\<close> returns is not empty and has a step
  with a non-empty field name, so \<^verbatim>\<open>newExtractFormat\<close> takes neither of its two
  \<^verbatim>\<open>logger.Panicf\<close> branches on it and returns a matcher.
\<close>

theorem parsed_steps_never_panic:
  assumes "parseExtractFormatSteps unescapeEntities s = Inr stps"
  shows "stps \<noteq> [] \<and> (\<exists>step \<in> set stps. field step \<noteq> [])
       \<and> newExtractFormat stps \<noteq> Inl BugStepsEmpty
       \<and> newExtractFormat stps \<noteq> Inl BugFieldsEmpty
       \<and> (\<exists>ef. newExtractFormat stps = Inr ef)"
proof -
  from assms obtain n steps1 where
    l: "parse_loop (take n s) (drop (n + 1) s) [] False = Inr (steps1, True)"
    and m: "stps = map (\<lambda>step. step\<lparr>prefix := UnescapeString unescapeEntities (prefix step)\<rparr>) steps1"
    by (auto simp: parseExtractFormatSteps_def split: option.splits sum.splits if_splits)
  from parse_loop_named [OF l] have "steps1 \<noteq> []" "\<exists>st \<in> set steps1. field st \<noteq> []"
    by simp_all
  with m have a: "stps \<noteq> []" and b: "\<exists>step \<in> set stps. field step \<noteq> []"
    by auto
  from newExtractFormat_ok [OF a b] a b show ?thesis by auto
qed

theorem parsed_steps_never_panic_witness:
  "parseExtractFormatSteps id ''k=<x>'' = Inr steps_k
   \<and> newExtractFormat steps_k \<noteq> Inl BugStepsEmpty
   \<and> newExtractFormat steps_k \<noteq> Inl BugFieldsEmpty"
proof -
  have h: "parseExtractFormatSteps id ''k=<x>'' = Inr steps_k"
    by (simp add: parseExtractFormatSteps_def parse_loop.simps UnescapeString_def steps_k_def)
  from parsed_steps_never_panic [OF h] h show ?thesis by simp
qed

text \<open>
  C9.  After \<^verbatim>\<open>updateNeededFields\<close> the pipe's source field is in the needed set, and
  no non-empty field name of a step is in the unneeded set.
\<close>

theorem updateNeededFields_sets:
  assumes "updateNeededFields p neededFields unneededFields = (needed', unneeded')"
  shows "pe_field p \<in> needed'
       \<and> (\<forall>step \<in> set (pe_steps p). field step \<noteq> [] \<longrightarrow> field step \<notin> unneeded')"
  using assms by (auto simp: updateNeededFields_def add_def remove_step_fields_eq)

theorem updateNeededFields_sets_witness:
  "updateNeededFields pipe_k {} {''x'', ''y''} = ({''_msg''}, {''y''})
   \<and> pe_field pipe_k \<in> {''_msg''} \<and> ''x'' \<notin> {''y''}"
proof -
  have h: "updateNeededFields pipe_k {} {''x'', ''y''} = ({''_msg''}, {''y''})"
    by (auto simp: updateNeededFields_def add_def remove_def pipe_k_def steps_k_def)
  from updateNeededFields_sets [OF h] h show ?thesis by (simp add: pipe_k_def steps_k_def)
qed

text \<open>
  C7.  A processor made by \<^verbatim>\<open>newPipeProcessor\<close> has one matcher per worker, each made by
  \<^verbatim>\<open>newExtractFormat\<close> from the pipe's steps.  Let the rows be dealt to the shards by any
  list \<open>ws\<close> of worker ids.  One matcher made from the same steps and applied to all rows
  in order returns normally, with one result per row; and each shard, applied to its own
  rows in order, ends every row in exactly the matcher state (buffer and field view) that
  the single matcher has after the same row.
\<close>

theorem shards_agree_with_single_matcher:
  assumes "newPipeProcessor p workersCount base = Inr pep"
    and "newExtractFormat (pe_steps p) = Inr single"
    and "length ws = length rows"
  shows "length (shards pep) = nat workersCount
       \<and> (\<exists>results. apply_each single rows = Inr results \<and> length results = length rows
            \<and> (\<forall>k < length (shards pep).
                  apply_each (shards pep ! k) (rows_of_shard k ws rows)
                    = Inr (rows_of_shard k ws results)))"
proof -
  note new = newExtractFormat_Inr [OF assms(2)]
  from assms(1) have sh: "shards pep = replicate (nat workersCount) single"
    by (auto simp: newPipeProcessor_def make_shards_replicate [OF assms(2)] split: if_splits)
  let ?f = "\<lambda>s. projr (extractFormat_apply single s)"
  have fresh: "\<And>xs. apply_each single xs = Inr (map ?f xs)"
    using new by (intro apply_each_fresh [OF assms(2)]) simp_all
  have "\<forall>k < length (shards pep).
          apply_each (shards pep ! k) (rows_of_shard k ws rows) = Inr (rows_of_shard k ws (map ?f rows))"
    by (simp add: sh fresh rows_of_shard_map)
  with fresh [of rows] sh show ?thesis by simp
qed

theorem shards_agree_with_single_matcher_witness:
  "newPipeProcessor pipe_k 2 []
     = Inr \<lparr>pe = pipe_k, ppBase = [],
            shards = replicate 2 \<lparr>steps = steps_k, matches = [[]],
                                   ef_fields = [\<lparr>name = ''x'', value_ptr = 0\<rparr>]\<rparr>\<rparr>
   \<and> apply_each \<lparr>steps = steps_k, matches = [[]], ef_fields = [\<lparr>name = ''x'', value_ptr = 0\<rparr>]\<rparr>
        (rows_of_shard 0 [0, 1, 0] [''k=a'', ''k=b'', ''q''])
     = Inr [\<lparr>steps = steps_k, matches = [''a''], ef_fields = [\<lparr>name = ''x'', value_ptr = 0\<rparr>]\<rparr>,
            \<lparr>steps = steps_k, matches = [[]], ef_fields = [\<lparr>name = ''x'', value_ptr = 0\<rparr>]\<rparr>]"
proof -
  let ?F = "[\<lparr>name = ''x'', value_ptr = 0\<rparr>]"
  let ?E = "\<lparr>steps = steps_k, matches = [[]], ef_fields = ?F\<rparr>"
  let ?P = "\<lparr>pe = pipe_k, ppBase = [], shards = replicate 2 ?E\<rparr>"
  have h1: "newPipeProcessor pipe_k 2 [] = Inr ?P"
    by (simp add: newPipeProcessor_def shardSize_def maxAlloc_def pipe_k_def steps_k_def newExtractFormat_def
          numeral_2_eq_2)
  have h2: "newExtractFormat (pe_steps pipe_k) = Inr ?E"
    by (simp add: pipe_k_def steps_k_def newExtractFormat_def)
  have h3: "length [0, 1, 0 :: nat] = length [''k=a'', ''k=b'', ''q'']" by simp
  have single: "apply_each ?E [''k=a'', ''k=b'', ''q'']
      = Inr [\<lparr>steps = steps_k, matches = [''a''], ef_fields = ?F\<rparr>,
             \<lparr>steps = steps_k, matches = [''b''], ef_fields = ?F\<rparr>,
             \<lparr>steps = steps_k, matches = [[]], ef_fields = ?F\<rparr>]"
    by (simp add: steps_k_def quote_eval apply_eval)
  from shards_agree_with_single_matcher [OF h1 h2 h3]
  obtain results where r: "apply_each ?E [''k=a'', ''k=b'', ''q''] = Inr results"
    and a: "\<forall>k < length (shards ?P).
              apply_each (shards ?P ! k) (rows_of_shard k [0, 1, 0] [''k=a'', ''k=b'', ''q''])
                = Inr (rows_of_shard k [0, 1, 0] results)"
    by blast
  from r single have res: "results
      = [\<lparr>steps = steps_k, matches = [''a''], ef_fields = ?F\<rparr>,
         \<lparr>steps = steps_k, matches = [''b''], ef_fields = ?F\<rparr>,
         \<lparr>steps = steps_k, matches = [[]], ef_fields = ?F\<rparr>]"
    by simp
  have "(0::nat) < length (shards ?P)" by simp
  with a have "apply_each (shards ?P ! 0) (rows_of_shard 0 [0, 1, 0] [''k=a'', ''k=b'', ''q''])
                = Inr (rows_of_shard 0 [0, 1, 0] results)"
    by blast
  with res h1 show ?thesis
    by (simp add: rows_of_shard_def numeral_2_eq_2)
qed

text \<open>
  C1 (the code departs from it).  For the pipe \<^verbatim>\<open>extract(_msg, "k=<x>")\<close> with one worker
  and a block whose single row holds \<^verbatim>\<open>k=v\<close>, \<^verbatim>\<open>writeBlock\<close> applies the shard's matcher,
  which captures \<^verbatim>\<open>v\<close> into its buffer, and returns: no column \<^verbatim>\<open>x\<close> is made and the
  downstream processor receives no call.
\<close>

theorem writeBlock_forwards_nothing:
  "newPipeProcessor pipe_k 1 []
     = Inr \<lparr>pe = pipe_k, ppBase = [],
            shards = [\<lparr>steps = steps_k, matches = [[]],
                       ef_fields = [\<lparr>name = ''x'', value_ptr = 0\<rparr>]\<rparr>]\<rparr>
   \<and> writeBlock
        \<lparr>pe = pipe_k, ppBase = [],
         shards = [\<lparr>steps = steps_k, matches = [[]],
                    ef_fields = [\<lparr>name = ''x'', value_ptr = 0\<rparr>]\<rparr>]\<rparr>
        0 block_one_row
     = Inr \<lparr>pe = pipe_k, ppBase = [],
            shards = [\<lparr>steps = steps_k, matches = [''v''],
                       ef_fields = [\<lparr>name = ''x'', value_ptr = 0\<rparr>]\<rparr>]\<rparr>"
  by (simp add: newPipeProcessor_def shardSize_def maxAlloc_def writeBlock_def
        getColumnByName_def getValues_def
        pipe_k_def block_one_row_def steps_k_def quote_eval apply_eval)

text \<open>
  C2.  \<^verbatim>\<open>parseExtractFormatSteps\<close> returns an error exactly when the pattern has no \<^verbatim>\<open><\<close>,
  or a capture of it has no matching \<^verbatim>\<open>>\<close>, or a \<^verbatim>\<open><\<close> comes right after the \<^verbatim>\<open>>\<close> of a
  capture, or no capture has a name.  In every other case the pattern is the text of
  well-formed parts and the result is their step list: one step per capture in the order
  of the pattern, then a step for a non-empty last literal.  Every pattern made of
  well-formed parts is parsed to that list.  An error is the whole result: no steps come
  with it.
\<close>

theorem parse_error_iff:
  "(isl (parseExtractFormatSteps unescapeEntities s)
     \<longleftrightarrow> (CHR ''<'' \<notin> set s \<or> unterminated_capture s \<or> zero_length_delimiter s
          \<or> \<not> has_named_capture s))
   \<and> (\<not> (CHR ''<'' \<notin> set s \<or> unterminated_capture s \<or> zero_length_delimiter s
            \<or> \<not> has_named_capture s)
        \<longrightarrow> (\<exists>caps t. well_formed_pattern caps t \<and> s = pattern_text caps t
              \<and> parseExtractFormatSteps unescapeEntities s
                  = Inr (steps_of_pattern unescapeEntities caps t)))
   \<and> (\<forall>caps t. well_formed_pattern caps t
        \<longrightarrow> parseExtractFormatSteps unescapeEntities (pattern_text caps t)
              = Inr (steps_of_pattern unescapeEntities caps t))"
proof -
  have iff: "isl (parseExtractFormatSteps unescapeEntities s)
     \<longleftrightarrow> (CHR ''<'' \<notin> set s \<or> unterminated_capture s \<or> zero_length_delimiter s
          \<or> \<not> has_named_capture s)"
  proof (cases "IndexByte s CHR ''<''")
    case None
    then have "CHR ''<'' \<notin> set s" by (simp add: IndexByte_None_iff)
    with None show ?thesis
      by (simp add: parseExtractFormatSteps_def)
  next
    case (Some n)
    define p where "p = take n s"
    define r0 where "r0 = drop (n + 1) s"
    from IndexByte_Some_split [OF Some] have s: "s = p @ CHR ''<'' # r0" and p: "CHR ''<'' \<notin> set p"
      by (simp_all add: p_def r0_def)
    note co = capture_opens_iff [OF s p]
    have lt: "CHR ''<'' \<in> set s" using s by simp
    have a: "unterminated_capture s \<longleftrightarrow> unterminated_from r0"
      by (simp add: unterminated_capture_def unterminated_from_def co)
    have b: "zero_length_delimiter s \<longleftrightarrow> zero_delimiter_from r0"
      by (auto simp: zero_length_delimiter_def zero_delimiter_from_def co)
    have c: "has_named_capture s \<longleftrightarrow> named_capture_from r0"
      by (auto simp: has_named_capture_def named_capture_from_def co)
    have eq: "parseExtractFormatSteps unescapeEntities s =
        (case parse_loop p r0 [] False of
           Inl e \<Rightarrow> Inl e
         | Inr (steps1, named1) \<Rightarrow>
             if \<not> named1 then Inl MissingNamedFields
             else Inr (map (\<lambda>step. step\<lparr>prefix := UnescapeString unescapeEntities (prefix step)\<rparr>)
                         steps1))"
      unfolding parseExtractFormatSteps_def Some p_def r0_def by simp
    have "isl (parseExtractFormatSteps unescapeEntities s)
            \<longleftrightarrow> unterminated_from r0 \<or> zero_delimiter_from r0 \<or> \<not> named_capture_from r0"
    proof (cases "parse_loop p r0 [] False")
      case (Inl e)
      with parse_loop_spec [where pfx = p and r = r0 and stps = "[]" and named = False]
      show ?thesis by (auto simp: eq)
    next
      case (Inr res)
      obtain steps1 named1 where res: "res = (steps1, named1)" by (cases res)
      with Inr parse_loop_spec [where pfx = p and r = r0 and stps = "[]" and named = False]
      show ?thesis by (auto simp: eq)
    qed
    with lt a b c show ?thesis by simp
  qed
  have ok: "\<not> (CHR ''<'' \<notin> set s \<or> unterminated_capture s \<or> zero_length_delimiter s
            \<or> \<not> has_named_capture s)
        \<longrightarrow> (\<exists>caps t. well_formed_pattern caps t \<and> s = pattern_text caps t
              \<and> parseExtractFormatSteps unescapeEntities s
                  = Inr (steps_of_pattern unescapeEntities caps t))"
  proof
    assume "\<not> (CHR ''<'' \<notin> set s \<or> unterminated_capture s \<or> zero_length_delimiter s
            \<or> \<not> has_named_capture s)"
    with iff have "\<not> isl (parseExtractFormatSteps unescapeEntities s)" by simp
    then obtain stps where r: "parseExtractFormatSteps unescapeEntities s = Inr stps"
      by (cases "parseExtractFormatSteps unescapeEntities s") auto
    from parse_decompose [OF r] r
    show "\<exists>caps t. well_formed_pattern caps t \<and> s = pattern_text caps t
              \<and> parseExtractFormatSteps unescapeEntities s
                  = Inr (steps_of_pattern unescapeEntities caps t)"
      by auto
  qed
  from iff ok parse_of_pattern show ?thesis by blast
qed

theorem parse_error_iff_witness:
  "parseExtractFormatSteps id ''a=<x> b=<y>'' = Inr steps_a_b
   \<and> parseExtractFormatSteps id ''k=<x>;''
       = Inr [\<lparr>prefix = ''k='', field = ''x''\<rparr>, \<lparr>prefix = '';'', field = []\<rparr>]
   \<and> has_named_capture ''a=<x> b=<y>''
   \<and> \<not> zero_length_delimiter ''a=<x> b=<y>''
   \<and> \<not> unterminated_capture ''a=<x> b=<y>''"
proof -
  note main = parse_error_iff [of id "''a=<x> b=<y>''"]
  have w1: "well_formed_pattern [(''a='', ''x''), ('' b='', ''y'')] []"
    by (simp add: well_formed_pattern_def later_captures_ok_def capture_name_def)
  have w2: "well_formed_pattern [(''k='', ''x'')] '';''"
    by (simp add: well_formed_pattern_def later_captures_ok_def capture_name_def)
  have t1: "pattern_text [(''a='', ''x''), ('' b='', ''y'')] [] = ''a=<x> b=<y>''"
    by (simp add: pattern_text_def capture_segment_def)
  have t2: "pattern_text [(''k='', ''x'')] '';'' = ''k=<x>;''"
    by (simp add: pattern_text_def capture_segment_def)
  have s1: "steps_of_pattern id [(''a='', ''x''), ('' b='', ''y'')] [] = steps_a_b"
    by (simp add: steps_of_pattern_def raw_steps_def capture_name_def UnescapeString_def
          steps_a_b_def)
  have s2: "steps_of_pattern id [(''k='', ''x'')] '';''
      = [\<lparr>prefix = ''k='', field = ''x''\<rparr>, \<lparr>prefix = '';'', field = []\<rparr>]"
    by (simp add: steps_of_pattern_def raw_steps_def capture_name_def UnescapeString_def)
  from main w1 have p1: "parseExtractFormatSteps id ''a=<x> b=<y>'' = Inr steps_a_b"
    unfolding t1 [symmetric] s1 [symmetric] by blast
  from main w2 have p2: "parseExtractFormatSteps id ''k=<x>;''
       = Inr [\<lparr>prefix = ''k='', field = ''x''\<rparr>, \<lparr>prefix = '';'', field = []\<rparr>]"
    unfolding t2 [symmetric] s2 [symmetric] by blast
  from p1 have "\<not> isl (parseExtractFormatSteps id ''a=<x> b=<y>'')" by simp
  with main p1 p2 show ?thesis by blast
qed

text \<open>
  C6 as stated fails.  The pattern \<^verbatim>\<open>k=<x>\<close> with the value \<^verbatim>\<open>"v"\<close> (quotes included)
  builds \<^verbatim>\<open>k="v"\<close>, from which the matcher returns \<^verbatim>\<open>v\<close> without the quotes.  The pattern
  \<^verbatim>\<open><x>aa<y>\<close> with the values \<^verbatim>\<open>a\<close> and \<^verbatim>\<open>b\<close>, of which the first does not contain \<^verbatim>\<open>aa\<close>,
  builds \<^verbatim>\<open>aaab\<close>, from which the matcher returns the empty string and \<^verbatim>\<open>ab\<close>.
\<close>

theorem roundtrip_counterexample:
  "parseExtractFormatSteps id ''k=<x>'' = Inr steps_k
   \<and> newExtractFormat steps_k
       = Inr \<lparr>steps = steps_k, matches = [[]], ef_fields = [\<lparr>name = ''x'', value_ptr = 0\<rparr>]\<rparr>
   \<and> values_avoid_next_prefix steps_k [dquote # ''v'' @ [dquote]]
   \<and> render steps_k [dquote # ''v'' @ [dquote]] = ''k='' @ dquote # ''v'' @ [dquote]
   \<and> map_sum id fieldValues
       (extractFormat_apply
          \<lparr>steps = steps_k, matches = [[]], ef_fields = [\<lparr>name = ''x'', value_ptr = 0\<rparr>]\<rparr>
          (render steps_k [dquote # ''v'' @ [dquote]]))
       = Inr [(''x'', ''v'')]
   \<and> ''v'' \<noteq> dquote # ''v'' @ [dquote]
   \<and> parseExtractFormatSteps id ''<x>aa<y>'' = Inr steps_x_aa_y
   \<and> newExtractFormat steps_x_aa_y
       = Inr \<lparr>steps = steps_x_aa_y, matches = [[], []],
              ef_fields = [\<lparr>name = ''x'', value_ptr = 0\<rparr>, \<lparr>name = ''y'', value_ptr = 1\<rparr>]\<rparr>
   \<and> values_avoid_next_prefix steps_x_aa_y [''a'', ''b'']
   \<and> render steps_x_aa_y [''a'', ''b''] = ''aaab''
   \<and> map_sum id fieldValues
       (extractFormat_apply
          \<lparr>steps = steps_x_aa_y, matches = [[], []],
           ef_fields = [\<lparr>name = ''x'', value_ptr = 0\<rparr>, \<lparr>name = ''y'', value_ptr = 1\<rparr>]\<rparr>
          (render steps_x_aa_y [''a'', ''b'']))
       = Inr [(''x'', []), (''y'', ''ab'')]"
  by (simp add: parseExtractFormatSteps_def parse_loop.simps UnescapeString_def
        steps_k_def steps_x_aa_y_def contains_str_def quote_eval apply_eval)

text \<open>
  C6, amended.  Take a step list that \<^verbatim>\<open>newExtractFormat\<close> accepts and one value per step
  such that, at every step, the text from the value to the end of the built string does
  not begin with a quoted span, and, when a step follows, its literal is not empty and
  first occurs in the value followed by that literal right after the value.  Then
  \<^verbatim>\<open>apply\<close> on the built string returns normally with exactly those values in the buffer,
  so that every named field reads its value.
\<close>

theorem roundtrip_without_quotes_or_overlap:
  assumes "newExtractFormat stps = Inr ef" and "roundtrip_ok stps vals"
  shows "extractFormat_apply ef (render stps vals) = Inr (ef\<lparr>matches := vals\<rparr>)
       \<and> fieldValues (ef\<lparr>matches := vals\<rparr>)
           = map (\<lambda>(st, v). (field st, v))
               (filter (\<lambda>(st, v). field st \<noteq> []) (zip stps vals))"
proof -
  note new = newExtractFormat_Inr [OF assms(1)]
  note len = roundtrip_ok_length [OF assms(2)]
  obtain st post where stps: "stps = st # post"
    using new(3) by (cases stps) auto
  with len obtain v vs where vals: "vals = v # vs"
    by (cases vals) auto
  let ?ms0 = "map (\<lambda>m. []) (matches ef)"
  have loop: "apply_loop stps 0 ?ms0 (v @ render post vs) = Inr vals"
    using roundtrip_loop [of st post v vs stps "[]" 0 ?ms0] assms(2) new
    by (simp add: stps vals)
  have r: "render stps vals = prefix st @ v @ render post vs"
    by (simp add: stps vals)
  have c: "steps ef = st # post" using new(1) stps by simp
  have "extractFormat_apply ef (render stps vals) = Inr (ef\<lparr>matches := vals\<rparr>)"
  proof (cases "prefix st = []")
    case True
    with loop show ?thesis
      by (simp add: apply_as_loop [OF c] r new(1))
  next
    case False
    have "Index (render stps vals) (prefix st) = Some 0"
      unfolding r by (rule Index_prefix_0)
    with False loop show ?thesis
      by (simp add: apply_as_loop [OF c] r new(1))
  qed
  with fieldValues_new [OF assms(1) len] show ?thesis by simp
qed

theorem roundtrip_without_quotes_or_overlap_witness:
  "roundtrip_ok steps_a_b [''1'', ''2'']
   \<and> render steps_a_b [''1'', ''2''] = ''a=1 b=2''
   \<and> extractFormat_apply
       \<lparr>steps = steps_a_b, matches = [[], []],
        ef_fields = [\<lparr>name = ''x'', value_ptr = 0\<rparr>, \<lparr>name = ''y'', value_ptr = 1\<rparr>]\<rparr>
       ''a=1 b=2''
     = Inr \<lparr>steps = steps_a_b, matches = [''1'', ''2''],
            ef_fields = [\<lparr>name = ''x'', value_ptr = 0\<rparr>, \<lparr>name = ''y'', value_ptr = 1\<rparr>]\<rparr>"
proof -
  have h1: "newExtractFormat steps_a_b
     = Inr \<lparr>steps = steps_a_b, matches = [[], []],
            ef_fields = [\<lparr>name = ''x'', value_ptr = 0\<rparr>, \<lparr>name = ''y'', value_ptr = 1\<rparr>]\<rparr>"
    by (simp add: newExtractFormat_def steps_a_b_def)
  have h2: "roundtrip_ok steps_a_b [''1'', ''2'']"
    by (simp add: steps_a_b_def quoted_at_def quote_eval HasPrefix_def)
  have r: "render steps_a_b [''1'', ''2''] = ''a=1 b=2''"
    by (simp add: steps_a_b_def)
  from roundtrip_without_quotes_or_overlap [OF h1 h2] h2 r show ?thesis by simp
qed


end
